theory Spec2Isabelle
  imports Complex_Main "HOL-Library.Word"
begin

section \<open>Redraw engine: palette resolution (renderer, \<open>xtermIndexToRgb\<close>)\<close>

text \<open>
  The renderer resolves an 8-bit palette index to an RGB triple.  The source keeps a fixed
  table of the sixteen ANSI colours, a list of six cube steps and a grey ramp; an index
  outside 0..255 falls through to the default foreground (220, 220, 220).  Indices are
  JavaScript numbers; the model takes the integral ones.
\<close>

type_synonym rgb = "int \<times> int \<times> int"

definition basic :: "rgb list" where
  "basic =
    [(0, 0, 0), (205, 49, 49), (13, 188, 121), (229, 229, 16),
     (36, 114, 200), (188, 63, 188), (17, 168, 205), (229, 229, 229),
     (102, 102, 102), (241, 76, 76), (35, 209, 139), (245, 245, 67),
     (59, 142, 234), (214, 112, 214), (41, 184, 219), (255, 255, 255)]"

definition steps :: "int list" where
  "steps = [0, 95, 135, 175, 215, 255]"

definition xtermIndexToRgb :: "int \<Rightarrow> rgb" where
  "xtermIndexToRgb idx =
    (if 0 \<le> idx \<and> idx \<le> 15 then basic ! nat idx
     else if 16 \<le> idx \<and> idx \<le> 231 then
       (let n = idx - 16;
            r = n div 36;
            g = (n mod 36) div 6;
            b = n mod 6
        in (steps ! nat r, steps ! nat g, steps ! nat b))
     else if 232 \<le> idx \<and> idx \<le> 255 then
       (let shade = 8 + (idx - 232) * 10 in (shade, shade, shade))
     else (220, 220, 220))"

text \<open>The three base-6 digits of a number below 216, most significant first.\<close>

definition base6_digits :: "int \<Rightarrow> int \<times> int \<times> int" where
  "base6_digits n = ((n div 36) mod 6, (n div 6) mod 6, n mod 6)"

lemma base6_digits_code:
  assumes "0 \<le> n" "n < 216"
  shows "base6_digits n = (n div 36, (n mod 36) div 6, n mod 6)"
proof -
  have a: "(n div 36) mod 6 = n div 36" using assms by simp
  have b: "(n mod 36) div 6 = (n div 6) mod 6"
    using zmod_zmult2_eq [of 6 n 6] by simp
  show ?thesis by (simp add: base6_digits_def a b)
qed

lemma mod6_le: "(x::int) mod 6 \<le> 5"
proof -
  have "x mod 6 < 6" by simp
  then show ?thesis by simp
qed

lemma base6_digits_range:
  "(case base6_digits n of (r, g, b) \<Rightarrow> {r, g, b} \<subseteq> {0..5})"
  by (simp add: base6_digits_def mod6_le)

lemma xterm_cube:
  assumes h: "16 \<le> idx \<and> idx \<le> 231"
  shows "case base6_digits (idx - 16) of (r, g, b) \<Rightarrow>
         {r, g, b} \<subseteq> {0..5} \<and>
         xtermIndexToRgb idx = (steps ! nat r, steps ! nat g, steps ! nat b)"
proof -
  from h have n: "0 \<le> idx - 16" "idx - 16 < 216" by auto
  have x: "xtermIndexToRgb idx =
      (steps ! nat ((idx - 16) div 36), steps ! nat (((idx - 16) mod 36) div 6),
       steps ! nat ((idx - 16) mod 6))"
    using h by (simp add: xtermIndexToRgb_def Let_def)
  have r: "case base6_digits (idx - 16) of (r, g, b) \<Rightarrow> {r, g, b} \<subseteq> {0..5}"
    by (rule base6_digits_range)
  show ?thesis using r unfolding x base6_digits_code [OF n] by simp
qed

text \<open>
  Claim C8.  Every palette index resolves as the specification says: indices 0 to 15 read
  the fixed sixteen-entry ANSI table; indices 16 to 231 read the steps
  0, 95, 135, 175, 215, 255 at the three base-6 digits of the index minus 16; indices 232
  to 255 are the grey shade 8 + (index - 232) * 10 in all three channels; and index 21 is
  pure blue (0, 0, 255).
\<close>

theorem xtermIndexToRgb_palette:
  "length basic = 16 \<and> steps = [0, 95, 135, 175, 215, 255] \<and>
   (0 \<le> idx \<and> idx \<le> 15 \<longrightarrow> xtermIndexToRgb idx = basic ! nat idx) \<and>
   (16 \<le> idx \<and> idx \<le> 231 \<longrightarrow>
      (case base6_digits (idx - 16) of (r, g, b) \<Rightarrow>
         {r, g, b} \<subseteq> {0..5} \<and>
         xtermIndexToRgb idx = (steps ! nat r, steps ! nat g, steps ! nat b))) \<and>
   (232 \<le> idx \<and> idx \<le> 255 \<longrightarrow>
      xtermIndexToRgb idx =
        (8 + (idx - 232) * 10, 8 + (idx - 232) * 10, 8 + (idx - 232) * 10)) \<and>
   xtermIndexToRgb 21 = (0, 0, 255)"
proof -
  have tab: "length basic = 16" by (simp add: basic_def)
  have st: "steps = [0, 95, 135, 175, 215, 255]" by (simp add: steps_def)
  have ansi: "0 \<le> idx \<and> idx \<le> 15 \<longrightarrow> xtermIndexToRgb idx = basic ! nat idx"
    by (simp add: xtermIndexToRgb_def)
  have cube: "16 \<le> idx \<and> idx \<le> 231 \<longrightarrow>
      (case base6_digits (idx - 16) of (r, g, b) \<Rightarrow>
         {r, g, b} \<subseteq> {0..5} \<and>
         xtermIndexToRgb idx = (steps ! nat r, steps ! nat g, steps ! nat b))"
    by (rule impI) (rule xterm_cube)
  have grey: "232 \<le> idx \<and> idx \<le> 255 \<longrightarrow>
      xtermIndexToRgb idx =
        (8 + (idx - 232) * 10, 8 + (idx - 232) * 10, 8 + (idx - 232) * 10)"
    by (simp add: xtermIndexToRgb_def Let_def)
  have blue: "xtermIndexToRgb 21 = (0, 0, 255)"
    by (simp add: xtermIndexToRgb_def steps_def)
  show ?thesis
    by (intro conjI) (rule tab st ansi cube grey blue)+
qed

theorem xtermIndexToRgb_palette_witness:
  "xtermIndexToRgb 9 = (241, 76, 76) \<and> xtermIndexToRgb 110 = (135, 175, 215) \<and>
   xtermIndexToRgb 240 = (88, 88, 88)"
proof -
  have a: "xtermIndexToRgb 9 = basic ! nat 9"
    using xtermIndexToRgb_palette [of 9, THEN conjunct2, THEN conjunct2, THEN conjunct1]
    by simp
  have b: "case base6_digits (110 - 16) of (r, g, b) \<Rightarrow>
         {r, g, b} \<subseteq> {0..5} \<and>
         xtermIndexToRgb 110 = (steps ! nat r, steps ! nat g, steps ! nat b)"
    using xtermIndexToRgb_palette [of 110, THEN conjunct2, THEN conjunct2, THEN conjunct2,
        THEN conjunct1]
    by simp
  have c: "xtermIndexToRgb 240 = (88, 88, 88)"
    using xtermIndexToRgb_palette [of 240, THEN conjunct2, THEN conjunct2, THEN conjunct2,
        THEN conjunct2, THEN conjunct1]
    by simp
  have d: "base6_digits (110 - 16) = (2, 3, 4)" by (simp add: base6_digits_def)
  show ?thesis using a b c unfolding d by (simp add: basic_def steps_def)
qed

section \<open>Layout engine (\<open>layout.ts\<close>)\<close>

text \<open>
  A layout tree is a binary tree of panes and splits; a tab owns one tree and a focused pane
  id; the layout state is the ordered list of tabs and the id of the active one.  Pane and
  tab ids come from two module-level counters (\<open>++_paneCounter\<close>, \<open>++_tabCounter\<close>),
  which the model threads through every function that allocates an id.  The field \<open>id\<close>
  of a pane and of a tab is \<open>pane_id\<close> and \<open>tab_id\<close> here, since \<open>id\<close> is the identity
  function of HOL.
\<close>

datatype SplitDirection = horizontal | vertical

datatype FocusDirection = up | down | left | right

type_synonym PaneId = nat
type_synonym TabId = nat

datatype LayoutNode =
    Pane (pane_id: PaneId) (ptyId: "int option")
  | Split (direction: SplitDirection) (ratio: rat) (first: LayoutNode) (second: LayoutNode)

record Tab =
  tab_id :: TabId
  root :: LayoutNode
  focusedPaneId :: PaneId

record LayoutState =
  tabs :: "Tab list"
  activeTabId :: TabId

record Counters =
  paneCounter :: nat
  tabCounter :: nat

definition createPaneId :: "Counters \<Rightarrow> PaneId \<times> Counters" where
  "createPaneId cs = (paneCounter cs + 1, cs\<lparr>paneCounter := paneCounter cs + 1\<rparr>)"

definition createTabId :: "Counters \<Rightarrow> TabId \<times> Counters" where
  "createTabId cs = (tabCounter cs + 1, cs\<lparr>tabCounter := tabCounter cs + 1\<rparr>)"

definition resetIdCounters :: "Counters" where
  "resetIdCounters = \<lparr>paneCounter = 0, tabCounter = 0\<rparr>"

subsection \<open>Queries\<close>

fun findPaneInTree :: "LayoutNode \<Rightarrow> PaneId \<Rightarrow> LayoutNode option" where
  "findPaneInTree (Pane i p) x = (if i = x then Some (Pane i p) else None)"
| "findPaneInTree (Split d r a b) x =
     (case findPaneInTree a x of Some n \<Rightarrow> Some n | None \<Rightarrow> findPaneInTree b x)"

fun getAllPaneIds :: "LayoutNode \<Rightarrow> PaneId list" where
  "getAllPaneIds (Pane i p) = [i]"
| "getAllPaneIds (Split d r a b) = getAllPaneIds a @ getAllPaneIds b"

definition hasPane :: "LayoutNode \<Rightarrow> PaneId \<Rightarrow> bool" where
  "hasPane node x = (findPaneInTree node x \<noteq> None)"

subsection \<open>Tree mutations\<close>

text \<open>
  \<open>splitPane\<close> decides whether the target was found in the first child by comparing
  object references: \<open>if (first !== node.first) return { ...node, first }\<close>.  Values in
  HOL have no identity, so the model returns, next to the new tree, whether the result
  \<^emph>\<open>is the argument object itself\<close>.  In the source that is so in exactly one place: a
  pane with another id is returned as it is (\<open>return node\<close>).  The matching pane returns a
  freshly built split, and a split node always returns a fresh object built by a spread
  (\<open>{ ...node, first }\<close> or \<open>{ ...node, second }\<close>), whether or not anything below it
  changed.  The third component is the pane counter after the call.
\<close>

fun splitPane ::
  "LayoutNode \<Rightarrow> PaneId \<Rightarrow> SplitDirection \<Rightarrow> Counters \<Rightarrow> LayoutNode \<times> bool \<times> Counters" where
  "splitPane (Pane i p) x dir cs =
     (if i \<noteq> x then (Pane i p, True, cs)
      else (let (newId, cs') = createPaneId cs;
                newPane = Pane newId None
            in (Split dir (1 / 2) (Pane i p) newPane, False, cs')))"
| "splitPane (Split d r a b) x dir cs =
     (let (first', same, cs') = splitPane a x dir cs
      in if \<not> same then (Split d r first' b, False, cs')
         else (let (second', same2, cs'') = splitPane b x dir cs'
               in (Split d r a second', False, cs'')))"

fun closePane :: "LayoutNode \<Rightarrow> PaneId \<Rightarrow> LayoutNode option" where
  "closePane (Pane i p) x = (if i = x then None else Some (Pane i p))"
| "closePane (Split d r a b) x =
     (let first' = closePane a x; second' = closePane b x
      in case first' of None \<Rightarrow> second'
         | Some f \<Rightarrow> (case second' of None \<Rightarrow> Some f | Some s \<Rightarrow> Some (Split d r f s)))"

subsection \<open>Tabs\<close>

definition createTab :: "Counters \<Rightarrow> Tab \<times> Counters" where
  "createTab cs =
     (let (paneId, cs1) = createPaneId cs;
          (tabId, cs2) = createTabId cs1
      in (\<lparr>tab_id = tabId, root = Pane paneId None, focusedPaneId = paneId\<rparr>, cs2))"

definition initLayout :: "Counters \<Rightarrow> LayoutState \<times> Counters" where
  "initLayout cs =
     (let (tab, cs') = createTab cs
      in (\<lparr>tabs = [tab], activeTabId = tab_id tab\<rparr>, cs'))"

definition addTab :: "LayoutState \<Rightarrow> Counters \<Rightarrow> LayoutState \<times> Counters" where
  "addTab state cs =
     (let (tab, cs') = createTab cs
      in (state\<lparr>tabs := tabs state @ [tab], activeTabId := tab_id tab\<rparr>, cs'))"

text \<open>\<open>Array.prototype.findIndex\<close>: the first index that satisfies the predicate, \<open>None\<close> for -1.\<close>

fun findIndex :: "('a \<Rightarrow> bool) \<Rightarrow> 'a list \<Rightarrow> nat option" where
  "findIndex P [] = None"
| "findIndex P (x # xs) =
     (if P x then Some 0 else (case findIndex P xs of None \<Rightarrow> None | Some i \<Rightarrow> Some (Suc i)))"

text \<open>
  In \<open>closeTab\<close> the reads \<open>state.tabs[index - 1]\<close> and \<open>state.tabs[index + 1]\<close> are
  in range: the first needs \<open>index > 0\<close>, the second is reached with \<open>index = 0\<close> and at
  least two tabs (lemma \<open>closeTab_reads_in_range\<close> below).
\<close>

definition closeTab :: "LayoutState \<Rightarrow> TabId \<Rightarrow> LayoutState" where
  "closeTab state tabId =
     (if length (tabs state) \<le> 1 then state
      else (case findIndex (\<lambda>t. tab_id t = tabId) (tabs state) of
              None \<Rightarrow> state
            | Some index \<Rightarrow>
                (let newTabs = filter (\<lambda>t. tab_id t \<noteq> tabId) (tabs state);
                     newActiveId =
                       (if activeTabId state = tabId
                        then (if index > 0 then tab_id (tabs state ! (index - 1))
                              else tab_id (tabs state ! (index + 1)))
                        else activeTabId state)
                 in state\<lparr>tabs := newTabs, activeTabId := newActiveId\<rparr>)))"

definition setActiveTab :: "LayoutState \<Rightarrow> TabId \<Rightarrow> LayoutState" where
  "setActiveTab state tabId =
     (case find (\<lambda>t. tab_id t = tabId) (tabs state) of
        None \<Rightarrow> state
      | Some t \<Rightarrow> state\<lparr>activeTabId := tabId\<rparr>)"

subsection \<open>Operations on the focused pane\<close>

definition getActiveTab :: "LayoutState \<Rightarrow> Tab option" where
  "getActiveTab state = find (\<lambda>t. tab_id t = activeTabId state) (tabs state)"

definition updateTab :: "LayoutState \<Rightarrow> TabId \<Rightarrow> Tab \<Rightarrow> LayoutState" where
  "updateTab state tabId updatedTab =
     state\<lparr>tabs := map (\<lambda>t. if tab_id t = tabId then updatedTab else t) (tabs state)\<rparr>"

text \<open>
  \<open>getAllPaneIds\<close> never returns an empty list, so the read of its last element in
  \<open>splitFocused\<close> and of its first element in \<open>closeFocused\<close> are in range.
\<close>

definition splitFocused ::
  "LayoutState \<Rightarrow> SplitDirection \<Rightarrow> Counters \<Rightarrow> LayoutState \<times> Counters" where
  "splitFocused state dir cs =
     (case getActiveTab state of
        None \<Rightarrow> (state, cs)
      | Some tab \<Rightarrow>
          (let (newRoot, same, cs') = splitPane (root tab) (focusedPaneId tab) dir cs;
               newPaneId = last (getAllPaneIds newRoot)
           in (updateTab state (tab_id tab)
                 (tab\<lparr>root := newRoot, focusedPaneId := newPaneId\<rparr>), cs')))"

definition closeFocused :: "LayoutState \<Rightarrow> LayoutState" where
  "closeFocused state =
     (case getActiveTab state of
        None \<Rightarrow> state
      | Some tab \<Rightarrow>
          (case closePane (root tab) (focusedPaneId tab) of
             None \<Rightarrow> closeTab state (tab_id tab)
           | Some newRoot \<Rightarrow>
               (let paneIds = getAllPaneIds newRoot;
                    focusedId = (if length paneIds > 0 then hd paneIds else focusedPaneId tab)
                in updateTab state (tab_id tab)
                     (tab\<lparr>root := newRoot, focusedPaneId := focusedId\<rparr>))))"

definition moveFocusToPane :: "LayoutState \<Rightarrow> PaneId \<Rightarrow> LayoutState" where
  "moveFocusToPane state paneId =
     (case getActiveTab state of
        None \<Rightarrow> state
      | Some tab \<Rightarrow>
          (if \<not> hasPane (root tab) paneId then state
           else updateTab state (tab_id tab) (tab\<lparr>focusedPaneId := paneId\<rparr>)))"

text \<open>\<open>Array.prototype.indexOf\<close>, \<open>None\<close> for -1.\<close>

definition indexOf :: "'a list \<Rightarrow> 'a \<Rightarrow> nat option" where
  "indexOf xs x = findIndex (\<lambda>y. y = x) xs"

definition focusNext :: "LayoutState \<Rightarrow> FocusDirection \<Rightarrow> LayoutState" where
  "focusNext state dir =
     (case getActiveTab state of
        None \<Rightarrow> state
      | Some tab \<Rightarrow>
          (let paneIds = getAllPaneIds (root tab) in
           case indexOf paneIds (focusedPaneId tab) of
             None \<Rightarrow> state
           | Some currentIndex \<Rightarrow>
               (if length paneIds \<le> 1 then state
                else (let nextIndex =
                            (if dir = left \<or> dir = up
                             then (if currentIndex > 0 then currentIndex - 1
                                   else length paneIds - 1)
                             else (currentIndex + 1) mod length paneIds)
                      in moveFocusToPane state (paneIds ! nextIndex)))))"

subsection \<open>The invariant checker\<close>

datatype layout_error =
    NoTabs
  | ActiveTabMissing
  | FocusedPaneMissing TabId PaneId
  | TabHasNoPanes TabId

definition validateTab :: "Tab \<Rightarrow> layout_error list" where
  "validateTab tab =
     (if \<not> hasPane (root tab) (focusedPaneId tab)
      then [FocusedPaneMissing (tab_id tab) (focusedPaneId tab)] else []) @
     (if length (getAllPaneIds (root tab)) = 0 then [TabHasNoPanes (tab_id tab)] else [])"

definition validateLayoutState :: "LayoutState \<Rightarrow> layout_error list" where
  "validateLayoutState state =
     (if length (tabs state) = 0 then [NoTabs] else []) @
     (if find (\<lambda>t. tab_id t = activeTabId state) (tabs state) = None
      then [ActiveTabMissing] else []) @
     concat (map validateTab (tabs state))"

subsection \<open>Sequences of operations\<close>

text \<open>
  The operations a caller can apply to a layout state, and their application from the
  initial layout (\<open>initLayout\<close> after \<open>resetIdCounters\<close>).
\<close>

datatype layout_op =
    OpSplit SplitDirection
  | OpClose
  | OpFocusNext FocusDirection
  | OpMoveFocus PaneId
  | OpAddTab
  | OpCloseTab TabId
  | OpSetActiveTab TabId

fun apply_op :: "LayoutState \<times> Counters \<Rightarrow> layout_op \<Rightarrow> LayoutState \<times> Counters" where
  "apply_op (s, cs) (OpSplit dir) = splitFocused s dir cs"
| "apply_op (s, cs) OpClose = (closeFocused s, cs)"
| "apply_op (s, cs) (OpFocusNext dir) = (focusNext s dir, cs)"
| "apply_op (s, cs) (OpMoveFocus p) = (moveFocusToPane s p, cs)"
| "apply_op (s, cs) OpAddTab = addTab s cs"
| "apply_op (s, cs) (OpCloseTab t) = (closeTab s t, cs)"
| "apply_op (s, cs) (OpSetActiveTab t) = (setActiveTab s t, cs)"

definition run_ops :: "layout_op list \<Rightarrow> LayoutState \<times> Counters" where
  "run_ops ops = foldl apply_op (initLayout resetIdCounters) ops"

definition layout_inv :: "LayoutState \<times> Counters \<Rightarrow> bool" where
  "layout_inv sc =
     (case sc of (s, cs) \<Rightarrow>
        tabs s \<noteq> [] \<and> distinct (map tab_id (tabs s)) \<and>
        (\<forall>t \<in> set (tabs s). tab_id t \<le> tabCounter cs) \<and>
        activeTabId s \<in> tab_id ` set (tabs s) \<and>
        (\<forall>t \<in> set (tabs s). hasPane (root t) (focusedPaneId t)))"

text \<open>The number of splits minus the number of closes in a sequence of operations.\<close>

fun net_splits :: "layout_op list \<Rightarrow> int" where
  "net_splits [] = 0"
| "net_splits (OpSplit d # ops) = net_splits ops + 1"
| "net_splits (OpClose # ops) = net_splits ops - 1"
| "net_splits (_ # ops) = net_splits ops"

text \<open>Three single-pane tabs, used to run the tab operations on concrete states.\<close>

definition tab_a :: Tab where
  "tab_a = \<lparr>tab_id = 1, root = Pane 1 None, focusedPaneId = 1\<rparr>"
definition tab_b :: Tab where
  "tab_b = \<lparr>tab_id = 2, root = Pane 2 None, focusedPaneId = 2\<rparr>"
definition tab_c :: Tab where
  "tab_c = \<lparr>tab_id = 3, root = Pane 3 None, focusedPaneId = 3\<rparr>"

subsection \<open>Properties of the layout engine\<close>

lemma getAllPaneIds_nonempty: "getAllPaneIds n \<noteq> []"
  by (induction n) auto

lemma length_getAllPaneIds_pos: "0 < length (getAllPaneIds n)"
  using getAllPaneIds_nonempty [of n] by simp

lemma single_pane_root:
  assumes "length (getAllPaneIds n) = 1"
  shows "\<exists>i p. n = Pane i p"
proof (cases n)
  case (Pane i p)
  then show ?thesis by simp
next
  case (Split d r a b)
  have "0 < length (getAllPaneIds a)" "0 < length (getAllPaneIds b)"
    by (rule length_getAllPaneIds_pos)+
  with Split assms show ?thesis by simp
qed

lemma findIndex_Some_lt: "findIndex P xs = Some i \<Longrightarrow> i < length xs"
  by (induction xs arbitrary: i) (auto split: if_splits option.splits)

lemma closeTab_single: "length (tabs s) \<le> 1 \<Longrightarrow> closeTab s tid = s"
  by (simp add: closeTab_def)

lemma closeTab_active:
  assumes "1 < length (tabs s)"
    and "findIndex (\<lambda>t. tab_id t = activeTabId s) (tabs s) = Some i"
  shows "closeTab s (activeTabId s) =
     s\<lparr>tabs := filter (\<lambda>t. tab_id t \<noteq> activeTabId s) (tabs s),
       activeTabId := (if 0 < i then tab_id (tabs s ! (i - 1)) else tab_id (tabs s ! (i + 1)))\<rparr>"
  using assms by (simp add: closeTab_def Let_def)

lemma closeTab_reads_in_range:
  assumes "1 < length (tabs s)"
    and "findIndex (\<lambda>t. tab_id t = tid) (tabs s) = Some i"
  shows "(0 < i \<longrightarrow> i - 1 < length (tabs s)) \<and> (i = 0 \<longrightarrow> i + 1 < length (tabs s))"
  using assms findIndex_Some_lt [OF assms(2)] by auto

lemma closeFocused_single_pane:
  assumes "getActiveTab s = Some tab"
    and "length (getAllPaneIds (root tab)) = 1"
    and "hasPane (root tab) (focusedPaneId tab)"
  shows "closeFocused s = closeTab s (tab_id tab)"
proof -
  obtain i p where r: "root tab = Pane i p"
    using single_pane_root [OF assms(2)] by blast
  with assms(3) have "i = focusedPaneId tab"
    by (simp add: hasPane_def split: if_splits)
  with r assms(1) show ?thesis by (simp add: closeFocused_def)
qed

lemma hasPane_iff: "hasPane n x \<longleftrightarrow> x \<in> set (getAllPaneIds n)"
  unfolding hasPane_def by (induction n) (auto split: option.splits)

lemma findIndex_Some_nth: "findIndex P xs = Some i \<Longrightarrow> i < length xs \<and> P (xs ! i)"
  by (induction xs arbitrary: i) (auto split: if_splits option.splits)

lemma findIndex_None: "findIndex P xs = None \<longleftrightarrow> (\<forall>x \<in> set xs. \<not> P x)"
  by (induction xs) (auto split: option.splits)

lemma getActiveTab_Some:
  "getActiveTab s = Some tab \<Longrightarrow> tab \<in> set (tabs s) \<and> tab_id tab = activeTabId s"
  unfolding getActiveTab_def by (auto simp: find_Some_iff)

lemma getActiveTab_None: "getActiveTab s = None \<longleftrightarrow> activeTabId s \<notin> tab_id ` set (tabs s)"
  unfolding getActiveTab_def by (force simp: find_None_iff)

lemma updateTab_ids:
  "tab_id t' = tid \<Longrightarrow> map tab_id (tabs (updateTab s tid t')) = map tab_id (tabs s)"
  by (simp add: updateTab_def comp_def)

lemma updateTab_set:
  "set (tabs (updateTab s tid t')) \<subseteq> insert t' (set (tabs s))"
  by (auto simp: updateTab_def)

lemma updateTab_activeTabId [simp]: "activeTabId (updateTab s tid t') = activeTabId s"
  by (simp add: updateTab_def)

lemma updateTab_inv:
  assumes "layout_inv (s, cs)" and "tab_id t' = tid"
    and "hasPane (root t') (focusedPaneId t')" and "tid \<le> tabCounter cs'"
    and "tabCounter cs \<le> tabCounter cs'"
  shows "layout_inv (updateTab s tid t', cs')"
proof -
  have ids: "map tab_id (tabs (updateTab s tid t')) = map tab_id (tabs s)"
    by (rule updateTab_ids [OF assms(2)])
  then have img: "tab_id ` set (tabs (updateTab s tid t')) = tab_id ` set (tabs s)"
    by (metis list.set_map)
  have ne: "tabs (updateTab s tid t') \<noteq> []"
    using assms(1) by (simp add: updateTab_def layout_inv_def)
  have foc: "\<forall>t \<in> set (tabs (updateTab s tid t')). hasPane (root t) (focusedPaneId t)"
    using updateTab_set [of s tid t'] assms(1,3) by (auto simp: layout_inv_def)
  have le: "\<forall>t \<in> set (tabs (updateTab s tid t')). tab_id t \<le> tabCounter cs'"
    using updateTab_set [of s tid t'] assms(1,2,4,5) by (fastforce simp: layout_inv_def)
  show ?thesis
    unfolding layout_inv_def using assms(1) ne foc le
    by (simp add: ids img layout_inv_def)
qed

lemma splitPane_tabCounter:
  "splitPane n x dir cs = (n', same, cs') \<Longrightarrow> tabCounter cs' = tabCounter cs"
proof (induction n arbitrary: cs n' same cs')
  case (Pane i p)
  then show ?case by (auto simp: createPaneId_def split: if_splits)
next
  case (Split d r a b)
  obtain a' sa ca where A: "splitPane a x dir cs = (a', sa, ca)"
    by (cases "splitPane a x dir cs") auto
  obtain b' sb cb where B: "splitPane b x dir ca = (b', sb, cb)"
    by (cases "splitPane b x dir ca") auto
  from Split.IH(1) [OF A] Split.IH(2) [OF B] Split.prems A B show ?case
    by (auto split: if_splits)
qed

lemma splitFocused_inv:
  assumes "layout_inv (s, cs)"
  shows "layout_inv (splitFocused s dir cs)"
proof (cases "getActiveTab s")
  case None
  then show ?thesis using assms by (simp add: splitFocused_def)
next
  case (Some tab)
  obtain newRoot same cs' where sp:
    "splitPane (root tab) (focusedPaneId tab) dir cs = (newRoot, same, cs')"
    by (cases "splitPane (root tab) (focusedPaneId tab) dir cs") auto
  have tc: "tabCounter cs' = tabCounter cs"
    by (rule splitPane_tabCounter [OF sp])
  have mem: "tab \<in> set (tabs s)" using getActiveTab_Some [OF Some] by simp
  have "layout_inv
      (updateTab s (tab_id tab)
         (tab\<lparr>root := newRoot, focusedPaneId := last (getAllPaneIds newRoot)\<rparr>), cs')"
  proof (rule updateTab_inv [OF assms])
    show "hasPane (root (tab\<lparr>root := newRoot, focusedPaneId := last (getAllPaneIds newRoot)\<rparr>))
        (focusedPaneId (tab\<lparr>root := newRoot, focusedPaneId := last (getAllPaneIds newRoot)\<rparr>))"
      by (simp add: hasPane_iff getAllPaneIds_nonempty)
    show "tab_id tab \<le> tabCounter cs'"
      using assms mem tc by (auto simp: layout_inv_def)
  qed (simp_all add: tc)
  then show ?thesis using Some sp by (simp add: splitFocused_def)
qed

lemma image_set_nonempty: "a \<in> f ` set xs \<Longrightarrow> xs \<noteq> []"
  by auto

lemma closeTab_inv:
  assumes inv: "layout_inv (s, cs)"
  shows "layout_inv (closeTab s tid, cs)"
proof (cases "length (tabs s) \<le> 1")
  case True
  then show ?thesis using inv by (simp add: closeTab_def)
next
  case False
  then have len: "1 < length (tabs s)" by simp
  show ?thesis
  proof (cases "findIndex (\<lambda>t. tab_id t = tid) (tabs s)")
    case None
    then show ?thesis using inv False by (simp add: closeTab_def)
  next
    case (Some i)
    let ?ids = "map tab_id (tabs s)"
    let ?new = "filter (\<lambda>t. tab_id t \<noteq> tid) (tabs s)"
    let ?act = "if activeTabId s = tid
                then (if 0 < i then tab_id (tabs s ! (i - 1)) else tab_id (tabs s ! (i + 1)))
                else activeTabId s"
    have eq: "closeTab s tid = s\<lparr>tabs := ?new, activeTabId := ?act\<rparr>"
      using False Some by (simp add: closeTab_def Let_def)
    have dist: "distinct ?ids" using inv by (simp add: layout_inv_def)
    have i: "i < length (tabs s)" "tab_id (tabs s ! i) = tid"
      using findIndex_Some_nth [OF Some] by simp_all
    have other: "\<And>j. j < length (tabs s) \<Longrightarrow> j \<noteq> i \<Longrightarrow> tab_id (tabs s ! j) \<noteq> tid"
    proof -
      fix j assume j: "j < length (tabs s)" "j \<noteq> i"
      have "j < length ?ids" "i < length ?ids" using j(1) i(1) by simp_all
      then have "?ids ! j \<noteq> ?ids ! i"
        using dist j(2) nth_eq_iff_index_eq [of ?ids j i] by blast
      then show "tab_id (tabs s ! j) \<noteq> tid" using j(1) i by simp
    qed
    have keep: "\<And>j. j < length (tabs s) \<Longrightarrow> j \<noteq> i \<Longrightarrow> tabs s ! j \<in> set ?new"
      using other by simp
    have act_in: "?act \<in> tab_id ` set ?new"
    proof (cases "activeTabId s = tid")
      case True
      show ?thesis
      proof (cases "0 < i")
        case True
        then have "tabs s ! (i - 1) \<in> set ?new" using keep [of "i - 1"] i(1) by simp
        then show ?thesis using True \<open>activeTabId s = tid\<close> by simp
      next
        case False
        then have "tabs s ! (i + 1) \<in> set ?new" using keep [of "i + 1"] len by simp
        then show ?thesis using False \<open>activeTabId s = tid\<close> by simp
      qed
    next
      case False
      then show ?thesis using inv by (auto simp: layout_inv_def)
    qed
    then have ne: "?new \<noteq> []" by (rule image_set_nonempty)
    have d2: "distinct (map tab_id ?new)" using dist by (rule distinct_map_filter)
    have rest: "(\<forall>t \<in> set ?new. tab_id t \<le> tabCounter cs) \<and>
        (\<forall>t \<in> set ?new. hasPane (root t) (focusedPaneId t))"
      using inv by (simp add: layout_inv_def)
    show ?thesis
      unfolding eq layout_inv_def using ne d2 act_in rest by simp
  qed
qed

lemma closeFocused_inv:
  assumes inv: "layout_inv (s, cs)"
  shows "layout_inv (closeFocused s, cs)"
proof (cases "getActiveTab s")
  case None
  then show ?thesis using inv by (simp add: closeFocused_def)
next
  case (Some tab)
  have mem: "tab \<in> set (tabs s)" using getActiveTab_Some [OF Some] by simp
  show ?thesis
  proof (cases "closePane (root tab) (focusedPaneId tab)")
    case None
    then show ?thesis using Some closeTab_inv [OF inv] by (simp add: closeFocused_def)
  next
    case (Some newRoot)
    have "layout_inv
      (updateTab s (tab_id tab) (tab\<lparr>root := newRoot, focusedPaneId := hd (getAllPaneIds newRoot)\<rparr>), cs)"
    proof (rule updateTab_inv [OF inv])
      show "tab_id tab \<le> tabCounter cs" using inv mem by (auto simp: layout_inv_def)
    qed (simp_all add: hasPane_iff getAllPaneIds_nonempty)
    then show ?thesis
      using Some \<open>getActiveTab s = Some tab\<close>
      by (simp add: closeFocused_def Let_def getAllPaneIds_nonempty)
  qed
qed

lemma moveFocusToPane_inv:
  assumes inv: "layout_inv (s, cs)"
  shows "layout_inv (moveFocusToPane s p, cs)"
proof (cases "getActiveTab s")
  case None
  then show ?thesis using inv by (simp add: moveFocusToPane_def)
next
  case (Some tab)
  have mem: "tab \<in> set (tabs s)" using getActiveTab_Some [OF Some] by simp
  show ?thesis
  proof (cases "hasPane (root tab) p")
    case False
    then show ?thesis using Some inv by (simp add: moveFocusToPane_def)
  next
    case True
    have "layout_inv (updateTab s (tab_id tab) (tab\<lparr>focusedPaneId := p\<rparr>), cs)"
    proof (rule updateTab_inv [OF inv])
      show "tab_id tab \<le> tabCounter cs" using inv mem by (auto simp: layout_inv_def)
    qed (simp_all add: True)
    then show ?thesis using Some True by (simp add: moveFocusToPane_def)
  qed
qed

lemma focusNext_inv:
  assumes inv: "layout_inv (s, cs)"
  shows "layout_inv (focusNext s dir, cs)"
  using inv moveFocusToPane_inv [OF inv]
  by (simp add: focusNext_def Let_def split: option.splits)

lemma setActiveTab_inv:
  assumes inv: "layout_inv (s, cs)"
  shows "layout_inv (setActiveTab s t, cs)"
proof (cases "find (\<lambda>u. tab_id u = t) (tabs s)")
  case None
  then show ?thesis using inv by (simp add: setActiveTab_def)
next
  case (Some u)
  then have "u \<in> set (tabs s)" "tab_id u = t" by (auto simp: find_Some_iff)
  then have "t \<in> tab_id ` set (tabs s)" by auto
  then show ?thesis using inv Some by (simp add: setActiveTab_def layout_inv_def)
qed

lemma addTab_inv:
  assumes inv: "layout_inv (s, cs)"
  shows "layout_inv (addTab s cs)"
proof -
  let ?t = "\<lparr>tab_id = tabCounter cs + 1, root = Pane (paneCounter cs + 1) None,
            focusedPaneId = paneCounter cs + 1\<rparr>"
  have eq: "addTab s cs =
      (s\<lparr>tabs := tabs s @ [?t], activeTabId := tabCounter cs + 1\<rparr>,
       cs\<lparr>paneCounter := paneCounter cs + 1, tabCounter := tabCounter cs + 1\<rparr>)"
    by (simp add: addTab_def createTab_def createPaneId_def createTabId_def)
  have fresh: "tabCounter cs + 1 \<notin> tab_id ` set (tabs s)"
    using inv by (fastforce simp: layout_inv_def)
  show ?thesis
    unfolding eq layout_inv_def using inv fresh
    by (auto simp: layout_inv_def hasPane_def)
qed

lemma initLayout_inv: "layout_inv (initLayout cs)"
  by (simp add: initLayout_def createTab_def createPaneId_def createTabId_def
      layout_inv_def hasPane_def)

lemma apply_op_inv: "layout_inv sc \<Longrightarrow> layout_inv (apply_op sc op)"
proof (cases sc)
  case (Pair s cs)
  assume "layout_inv sc"
  with Pair have inv: "layout_inv (s, cs)" by simp
  show ?thesis
    unfolding Pair
    by (cases op)
       (simp_all add: splitFocused_inv [OF inv] closeFocused_inv [OF inv]
          focusNext_inv [OF inv] moveFocusToPane_inv [OF inv] addTab_inv [OF inv]
          closeTab_inv [OF inv] setActiveTab_inv [OF inv])
qed

lemma foldl_apply_op_inv: "layout_inv sc \<Longrightarrow> layout_inv (foldl apply_op sc ops)"
  by (induction ops arbitrary: sc) (simp_all add: apply_op_inv)

lemma run_ops_inv: "layout_inv (run_ops ops)"
  unfolding run_ops_def by (rule foldl_apply_op_inv [OF initLayout_inv])

lemma layout_inv_validate: "layout_inv (s, cs) \<Longrightarrow> validateLayoutState s = []"
  by (auto simp: layout_inv_def validateLayoutState_def validateTab_def
      getAllPaneIds_nonempty find_None_iff)

text \<open>
  Every state reached from the initial layout by any sequence of operations passes the
  invariant checker: the tab list is non-empty, the active tab id resolves, every tab's
  focused pane is in its own tree and every tree has a pane.
\<close>

lemma run_ops_valid: "validateLayoutState (fst (run_ops ops)) = []"
  using run_ops_inv [of ops] layout_inv_validate [of "fst (run_ops ops)" "snd (run_ops ops)"]
  by simp

text \<open>The definitions unfolded to evaluate a run of operations.\<close>

lemmas layout_eval =
  run_ops_def initLayout_def createTab_def createPaneId_def createTabId_def resetIdCounters_def
  splitFocused_def closeFocused_def getActiveTab_def updateTab_def Let_def

text \<open>
  The specification's example: splitting the single pane of the initial layout gives two
  panes, and the new one, without a PTY, is focused.  Here the split pane is the last one
  in pre-order.
\<close>

lemma splitFocused_initLayout:
  "(case initLayout resetIdCounters of (s, cs) \<Rightarrow> splitFocused s vertical cs) =
     (\<lparr>tabs = [\<lparr>tab_id = 1, root = Split vertical (1 / 2) (Pane 1 None) (Pane 2 None),
                focusedPaneId = 2\<rparr>], activeTabId = 1\<rparr>,
      \<lparr>paneCounter = 2, tabCounter = 1\<rparr>)"
  by (simp add: layout_eval)

text \<open>
  Claim C9.  \<open>closeTab\<close> on a layout with exactly one tab returns the state unchanged; on
  a layout with more than one tab, closing the active tab removes it and activates the
  previous tab in the list, or the next one when the closed tab was first (both reads are
  inside the list); \<open>closeFocused\<close> on a tab whose tree holds exactly one pane (the focused
  one, as the tab invariant says) is the closure of that tab; and on a layout with one tab
  that closure is refused, so the state and the tab's focus stay as they were.
\<close>

theorem closeTab_policy:
  "(length (tabs s) = 1 \<longrightarrow> closeTab s tid = s) \<and>
   (1 < length (tabs s) \<and>
    findIndex (\<lambda>t. tab_id t = activeTabId s) (tabs s) = Some i \<longrightarrow>
      tabs (closeTab s (activeTabId s)) =
        filter (\<lambda>t. tab_id t \<noteq> activeTabId s) (tabs s) \<and>
      (0 < i \<longrightarrow> i - 1 < length (tabs s) \<and>
         activeTabId (closeTab s (activeTabId s)) = tab_id (tabs s ! (i - 1))) \<and>
      (i = 0 \<longrightarrow> i + 1 < length (tabs s) \<and>
         activeTabId (closeTab s (activeTabId s)) = tab_id (tabs s ! (i + 1)))) \<and>
   (getActiveTab s = Some tab \<and> length (getAllPaneIds (root tab)) = 1 \<and>
    hasPane (root tab) (focusedPaneId tab) \<longrightarrow>
      closeFocused s = closeTab s (tab_id tab)) \<and>
   (length (tabs s) = 1 \<and> getActiveTab s = Some tab \<and>
    length (getAllPaneIds (root tab)) = 1 \<and> hasPane (root tab) (focusedPaneId tab) \<longrightarrow>
      closeFocused s = s \<and> getActiveTab (closeFocused s) = Some tab)"
proof -
  have one: "length (tabs s) = 1 \<longrightarrow> closeTab s tid = s"
    by (simp add: closeTab_single)
  have many: "1 < length (tabs s) \<and>
    findIndex (\<lambda>t. tab_id t = activeTabId s) (tabs s) = Some i \<longrightarrow>
      tabs (closeTab s (activeTabId s)) =
        filter (\<lambda>t. tab_id t \<noteq> activeTabId s) (tabs s) \<and>
      (0 < i \<longrightarrow> i - 1 < length (tabs s) \<and>
         activeTabId (closeTab s (activeTabId s)) = tab_id (tabs s ! (i - 1))) \<and>
      (i = 0 \<longrightarrow> i + 1 < length (tabs s) \<and>
         activeTabId (closeTab s (activeTabId s)) = tab_id (tabs s ! (i + 1)))"
  proof
    assume h: "1 < length (tabs s) \<and>
      findIndex (\<lambda>t. tab_id t = activeTabId s) (tabs s) = Some i"
    then have a: "1 < length (tabs s)"
      and b: "findIndex (\<lambda>t. tab_id t = activeTabId s) (tabs s) = Some i" by simp_all
    show "tabs (closeTab s (activeTabId s)) =
        filter (\<lambda>t. tab_id t \<noteq> activeTabId s) (tabs s) \<and>
      (0 < i \<longrightarrow> i - 1 < length (tabs s) \<and>
         activeTabId (closeTab s (activeTabId s)) = tab_id (tabs s ! (i - 1))) \<and>
      (i = 0 \<longrightarrow> i + 1 < length (tabs s) \<and>
         activeTabId (closeTab s (activeTabId s)) = tab_id (tabs s ! (i + 1)))"
      using closeTab_reads_in_range [OF a b]
      by (simp add: closeTab_active [OF a b])
  qed
  have pane: "getActiveTab s = Some tab \<and> length (getAllPaneIds (root tab)) = 1 \<and>
    hasPane (root tab) (focusedPaneId tab) \<longrightarrow>
      closeFocused s = closeTab s (tab_id tab)"
    using closeFocused_single_pane by blast
  have both: "length (tabs s) = 1 \<and> getActiveTab s = Some tab \<and>
    length (getAllPaneIds (root tab)) = 1 \<and> hasPane (root tab) (focusedPaneId tab) \<longrightarrow>
      closeFocused s = s \<and> getActiveTab (closeFocused s) = Some tab"
    using closeFocused_single_pane [of s tab] closeTab_single [of s "tab_id tab"] by simp
  show ?thesis
    by (intro conjI) (rule one many pane both)+
qed

theorem closeTab_policy_witness:
  "closeTab \<lparr>tabs = [tab_a], activeTabId = 1\<rparr> 1 = \<lparr>tabs = [tab_a], activeTabId = 1\<rparr> \<and>
   closeFocused \<lparr>tabs = [tab_a], activeTabId = 1\<rparr> = \<lparr>tabs = [tab_a], activeTabId = 1\<rparr> \<and>
   closeTab \<lparr>tabs = [tab_a, tab_b, tab_c], activeTabId = 2\<rparr> 2 =
     \<lparr>tabs = [tab_a, tab_c], activeTabId = 1\<rparr> \<and>
   closeTab \<lparr>tabs = [tab_a, tab_b, tab_c], activeTabId = 1\<rparr> 1 =
     \<lparr>tabs = [tab_b, tab_c], activeTabId = 2\<rparr> \<and>
   closeFocused \<lparr>tabs = [tab_a, tab_b, tab_c], activeTabId = 2\<rparr> =
     closeTab \<lparr>tabs = [tab_a, tab_b, tab_c], activeTabId = 2\<rparr> 2"
proof -
  let ?s1 = "\<lparr>tabs = [tab_a], activeTabId = 1\<rparr>"
  let ?s2 = "\<lparr>tabs = [tab_a, tab_b, tab_c], activeTabId = 2\<rparr>"
  let ?s3 = "\<lparr>tabs = [tab_a, tab_b, tab_c], activeTabId = 1\<rparr>"
  have ids: "tab_id tab_a = 1" "tab_id tab_b = 2" "tab_id tab_c = 3"
    by (simp_all add: tab_a_def tab_b_def tab_c_def)
  have a: "closeTab ?s1 1 = ?s1"
    using closeTab_policy [of ?s1 1, THEN conjunct1] by simp
  have b: "closeFocused ?s1 = ?s1"
    using closeTab_policy [of ?s1 _ _ tab_a, THEN conjunct2, THEN conjunct2, THEN conjunct2]
    by (simp add: getActiveTab_def hasPane_def tab_a_def)
  have c: "tabs (closeTab ?s2 2) = [tab_a, tab_c] \<and> activeTabId (closeTab ?s2 2) = 1"
    using closeTab_policy [of ?s2 _ 1, THEN conjunct2, THEN conjunct1]
    by (simp add: ids)
  have d: "tabs (closeTab ?s3 1) = [tab_b, tab_c] \<and> activeTabId (closeTab ?s3 1) = 2"
    using closeTab_policy [of ?s3 _ 0, THEN conjunct2, THEN conjunct1]
    by (simp add: ids)
  have e: "closeFocused ?s2 = closeTab ?s2 2"
    using closeTab_policy [of ?s2 _ _ tab_b, THEN conjunct2, THEN conjunct2, THEN conjunct1]
    by (simp add: getActiveTab_def hasPane_def ids) (simp add: tab_b_def)
  have eqI: "\<And>x t a. tabs x = t \<and> activeTabId x = a \<Longrightarrow> x = \<lparr>tabs = t, activeTabId = a\<rparr>"
    by auto
  show ?thesis using a b eqI [OF c] eqI [OF d] e by simp
qed

text \<open>
  Claim C1.  For every layout state whose active tab's focused pane exists,
  \<open>splitFocused\<close> replaces the focused leaf by a split of ratio 1/2 whose first child is
  the old leaf and whose second child is a new pane without a PTY, and the new pane
  becomes focused, for every tree shape.  The source does not do that: it focuses the last
  pane of the new tree in pre-order (\<open>getAllPaneIds(newRoot)[length - 1]\<close>), which is the
  new pane only when the split pane was the last one.  After split, split, close from the
  initial layout the tab holds panes 1 and 2 with pane 1 focused; splitting then puts the
  new pane 4 beside pane 1, and the focus goes to pane 2.
\<close>

theorem splitFocused_focus_diverges:
  "run_ops [OpSplit vertical, OpSplit vertical, OpClose] =
     (\<lparr>tabs = [\<lparr>tab_id = 1, root = Split vertical (1 / 2) (Pane 1 None) (Pane 2 None),
                focusedPaneId = 1\<rparr>], activeTabId = 1\<rparr>,
      \<lparr>paneCounter = 3, tabCounter = 1\<rparr>) \<and>
   splitFocused
     \<lparr>tabs = [\<lparr>tab_id = 1, root = Split vertical (1 / 2) (Pane 1 None) (Pane 2 None),
                focusedPaneId = 1\<rparr>], activeTabId = 1\<rparr>
     horizontal \<lparr>paneCounter = 3, tabCounter = 1\<rparr> =
     (\<lparr>tabs = [\<lparr>tab_id = 1,
                root = Split vertical (1 / 2)
                         (Split horizontal (1 / 2) (Pane 1 None) (Pane 4 None)) (Pane 2 None),
                focusedPaneId = 2\<rparr>], activeTabId = 1\<rparr>,
      \<lparr>paneCounter = 4, tabCounter = 1\<rparr>)"
  by (simp add: layout_eval)

text \<open>
  Claim C6.  For every sequence of split, close, focus and tab operations from the
  initial layout the state passes the invariant checker (lemma \<open>run_ops_valid\<close> above
  proves that part), and the active tab's pane count is 1 plus the net number of splits.
  The count fails on the source: after split, split, close, split the focused pane 2 is the
  second child of a root whose first child is a split; \<open>splitPane\<close> takes the fresh object
  returned for that first child as a sign that the target was found there and never visits
  the second child, so the fifth operation, a split, adds no pane.  The tab has three panes
  where 1 plus the net number of splits is four.
\<close>

theorem pane_count_diverges:
  "run_ops [OpSplit vertical, OpSplit vertical, OpClose, OpSplit vertical, OpSplit vertical] =
     (\<lparr>tabs = [\<lparr>tab_id = 1,
                root = Split vertical (1 / 2)
                         (Split vertical (1 / 2) (Pane 1 None) (Pane 4 None)) (Pane 2 None),
                focusedPaneId = 2\<rparr>], activeTabId = 1\<rparr>,
      \<lparr>paneCounter = 4, tabCounter = 1\<rparr>) \<and>
   length (getAllPaneIds
     (Split vertical (1 / 2) (Split vertical (1 / 2) (Pane 1 None) (Pane 4 None)) (Pane 2 None))) = 3 \<and>
   1 + net_splits [OpSplit vertical, OpSplit vertical, OpClose, OpSplit vertical, OpSplit vertical] = 4"
  by (simp add: layout_eval)

section \<open>Keybinding interpreter (\<open>keybinds.ts\<close>)\<close>
















subsection \<open>Properties of the prefix matcher\<close>






section \<open>Redraw engine: the cell grid (renderer, \<open>Renderer.write\<close>)\<close>

text \<open>
  The renderer keeps a grid of cells, a style table, the cursor, the selection, the title
  and the set of dirty cells.  A JavaScript array is an object keyed by index, so the grid
  is a map from row numbers to rows and a row is a map from column numbers to cells:
  reading a missing row gives \<open>undefined\<close> (\<open>None\<close>), assigning into it raises a TypeError,
  and assigning at a negative column stores a property beside the cells in range.  The
  dirty set holds the strings \<open>row,col\<close>, which are one-to-one with pairs of integers.
  Rows and columns are JavaScript numbers that the caller has checked to be finite; the
  model takes the integral ones.  The cache of colour objects is not part of the model.
  The method \<open>write\<close> is \<open>Renderer_write\<close> here, \<open>write\<close> being a keyword of Isar; the
  cursor's fields \<open>row\<close> and \<open>col\<close> are \<open>cursor_row\<close> and \<open>cursor_col\<close>.
\<close>

record Cell =
  grapheme :: string
  style_id :: "int option"
  repeat :: "int option"
  width :: "int option"

record GridCell =
  g_grapheme :: string
  g_style_id :: "int option"

record StyleAttributes =
  fg :: "int option"
  bg :: "int option"
  fg_idx :: "int option"
  bg_idx :: "int option"
  bold :: "bool option"
  dim :: "bool option"
  italic :: "bool option"
  underline :: "bool option"
  reverse :: "bool option"
  blink :: "bool option"
  strikethrough :: "bool option"
  ul_style :: "int option"
  ul_color :: "int option"

datatype CursorShape = block | beam | underline_shape

record CursorState =
  cursor_row :: int
  cursor_col :: int
  visible :: bool
  shape :: CursorShape

record SelectionState =
  start_row :: "int option"
  start_col :: "int option"
  end_row :: "int option"
  end_col :: "int option"

record Renderer =
  rows :: int
  cols :: int
  grid :: "int \<rightharpoonup> (int \<rightharpoonup> GridCell)"
  styles :: "int \<rightharpoonup> StyleAttributes"
  cursorState :: CursorState
  selectionState :: SelectionState
  titleText :: string
  dirtyCells :: "(int \<times> int) set"

text \<open>The only exception \<open>write\<close> can raise: assigning into a row that does not exist.\<close>

datatype js_error = TypeError

definition blank :: GridCell where
  "blank = \<lparr>g_grapheme = '' '', g_style_id = None\<rparr>"

definition initGrid :: "Renderer \<Rightarrow> Renderer" where
  "initGrid st =
     st\<lparr>grid := (\<lambda>r. if 0 \<le> r \<and> r < rows st
                      then Some (\<lambda>c. if 0 \<le> c \<and> c < cols st then Some blank else None)
                      else None)\<rparr>"

definition markAllDirty :: "Renderer \<Rightarrow> Renderer" where
  "markAllDirty st =
     st\<lparr>dirtyCells := dirtyCells st \<union> {(r, c). 0 \<le> r \<and> r < rows st \<and> 0 \<le> c \<and> c < cols st}\<rparr>"

definition new_Renderer :: "int \<Rightarrow> int \<Rightarrow> Renderer" where
  "new_Renderer n m =
     markAllDirty (initGrid
       \<lparr>rows = n, cols = m, grid = Map.empty, styles = Map.empty,
        cursorState = \<lparr>cursor_row = 0, cursor_col = 0, visible = False, shape = block\<rparr>,
        selectionState = \<lparr>start_row = None, start_col = None, end_row = None, end_col = None\<rparr>,
        titleText = '''', dirtyCells = {}\<rparr>)"

definition resize :: "Renderer \<Rightarrow> int \<Rightarrow> int \<Rightarrow> Renderer" where
  "resize st n m =
     (if n = rows st \<and> m = cols st then st
      else markAllDirty ((initGrid (st\<lparr>rows := n, cols := m\<rparr>))\<lparr>dirtyCells := {}\<rparr>))"

text \<open>
  \<open>write\<close> is two nested loops.  \<open>write_repeat\<close> is the inner loop over \<open>rep\<close>, with the
  number of iterations left as its first argument; \<open>write_cells\<close> is the outer loop over the
  cells, carrying \<open>currentStyleId\<close> and the column \<open>c\<close>.  The \<open>break\<close> of the inner
  loop leaves only that loop; the outer loop then stops at its own test.  A cell's
  \<open>repeat\<close> and \<open>width\<close> default to 1 when absent (\<open>??\<close>).
\<close>

fun write_repeat ::
  "nat \<Rightarrow> string \<Rightarrow> int option \<Rightarrow> int \<Rightarrow> int \<Rightarrow> int \<Rightarrow> Renderer \<Rightarrow> js_error + (int \<times> Renderer)" where
  "write_repeat 0 g styleId w r c st = Inr (c, st)"
| "write_repeat (Suc n) g styleId w r c st =
     (if c \<ge> cols st then Inr (c, st)
      else (case grid st r of
              None \<Rightarrow> Inl TypeError
            | Some line \<Rightarrow>
                (if w = 2 \<and> c + 1 < cols st
                 then write_repeat n g styleId w r (c + 2)
                        (st\<lparr>grid := (grid st)(r \<mapsto>
                                line(c \<mapsto> \<lparr>g_grapheme = g, g_style_id = styleId\<rparr>,
                                     c + 1 \<mapsto> \<lparr>g_grapheme = '' '', g_style_id = styleId\<rparr>)),
                            dirtyCells := insert (r, c + 1) (insert (r, c) (dirtyCells st))\<rparr>)
                 else write_repeat n g styleId w r (c + 1)
                        (st\<lparr>grid := (grid st)(r \<mapsto>
                                line(c \<mapsto> \<lparr>g_grapheme = g, g_style_id = styleId\<rparr>)),
                            dirtyCells := insert (r, c) (dirtyCells st)\<rparr>))))"

fun write_cells ::
  "Cell list \<Rightarrow> int \<Rightarrow> int option \<Rightarrow> int \<Rightarrow> Renderer \<Rightarrow> js_error + Renderer" where
  "write_cells [] r currentStyleId c st = Inr st"
| "write_cells (cell # cells) r currentStyleId c st =
     (if c \<ge> cols st then Inr st
      else (let currentStyleId' =
                  (case style_id cell of Some s \<Rightarrow> Some s | None \<Rightarrow> currentStyleId);
                styleId = (case style_id cell of None \<Rightarrow> currentStyleId' | Some s \<Rightarrow> Some s);
                rep = (case repeat cell of None \<Rightarrow> 1 | Some n \<Rightarrow> n);
                w = (case width cell of None \<Rightarrow> 1 | Some n \<Rightarrow> n)
            in case write_repeat (nat rep) (grapheme cell) styleId w r c st of
                 Inl e \<Rightarrow> Inl e
               | Inr (c', st') \<Rightarrow> write_cells cells r currentStyleId' c' st'))"

definition Renderer_write :: "Renderer \<Rightarrow> int \<Rightarrow> int \<Rightarrow> Cell list \<Rightarrow> js_error + Renderer" where
  "Renderer_write st r c cells =
     (if r < 0 \<or> r \<ge> rows st then Inr st else write_cells cells r None c st)"

text \<open>The cell stored at a position: \<open>this.grid[r][c]\<close>, \<open>None\<close> for \<open>undefined\<close>.\<close>

definition cell_at :: "Renderer \<Rightarrow> int \<Rightarrow> int \<Rightarrow> GridCell option" where
  "cell_at st r c = (case grid st r of None \<Rightarrow> None | Some line \<Rightarrow> line c)"

subsection \<open>What the specification says \<open>write\<close> does\<close>

text \<open>
  The specification's account of a write, as definitions of its own: every cell stands
  for a run of grid entries (\<open>cell_entries\<close>: the grapheme, followed by a blank
  continuation of the same style when the width is 2, the whole repeated \<open>repeat\<close>
  times); a cell without a style id takes the most recent explicit one of the same call
  (\<open>expand\<close>); the entries are stored left to right from the start column, and the ones
  that would fall at or beyond the column count are dropped (\<open>write_flat\<close>).
\<close>

definition set_cell :: "Renderer \<Rightarrow> int \<Rightarrow> int \<Rightarrow> GridCell \<Rightarrow> Renderer" where
  "set_cell st r c e =
     st\<lparr>grid := (grid st)(r \<mapsto> (case grid st r of None \<Rightarrow> Map.empty | Some line \<Rightarrow> line)(c \<mapsto> e)),
        dirtyCells := insert (r, c) (dirtyCells st)\<rparr>"

fun write_flat :: "GridCell list \<Rightarrow> int \<Rightarrow> int \<Rightarrow> Renderer \<Rightarrow> Renderer" where
  "write_flat [] r c st = st"
| "write_flat (e # es) r c st =
     (if c \<ge> cols st then st else write_flat es r (c + 1) (set_cell st r c e))"

definition cell_entries :: "Cell \<Rightarrow> int option \<Rightarrow> GridCell list" where
  "cell_entries cell styleId =
     concat (replicate (nat (case repeat cell of None \<Rightarrow> 1 | Some n \<Rightarrow> n))
       (if width cell = Some 2
        then [\<lparr>g_grapheme = grapheme cell, g_style_id = styleId\<rparr>,
              \<lparr>g_grapheme = '' '', g_style_id = styleId\<rparr>]
        else [\<lparr>g_grapheme = grapheme cell, g_style_id = styleId\<rparr>]))"

fun expand :: "int option \<Rightarrow> Cell list \<Rightarrow> GridCell list" where
  "expand recent [] = []"
| "expand recent (cell # cells) =
     (let styleId = (case style_id cell of Some s \<Rightarrow> Some s | None \<Rightarrow> recent)
      in cell_entries cell styleId @ expand styleId cells)"

definition unit_entries :: "string \<Rightarrow> int option \<Rightarrow> int \<Rightarrow> GridCell list" where
  "unit_entries g styleId w =
     (if w = 2 then [\<lparr>g_grapheme = g, g_style_id = styleId\<rparr>,
                     \<lparr>g_grapheme = '' '', g_style_id = styleId\<rparr>]
      else [\<lparr>g_grapheme = g, g_style_id = styleId\<rparr>])"

text \<open>The positions a run of entries written from column \<open>c\<close> occupies in a row of \<open>n\<close> columns.\<close>

text \<open>The two cells of the specification's example.\<close>

definition cell_A :: Cell where
  "cell_A = \<lparr>grapheme = ''A'', style_id = None, repeat = None, width = None\<rparr>"

definition cell_B2 :: Cell where
  "cell_B2 = \<lparr>grapheme = ''B'', style_id = None, repeat = None, width = Some 2\<rparr>"

definition written :: "int \<Rightarrow> int \<Rightarrow> GridCell list \<Rightarrow> int \<Rightarrow> (int \<times> int) set" where
  "written r c es n = {(r, c') | c'. c \<le> c' \<and> c' < c + int (length es) \<and> c' < n}"

subsection \<open>Properties of \<open>write\<close>\<close>

lemma set_cell_fields [simp]:
  "cols (set_cell st r c e) = cols st" "rows (set_cell st r c e) = rows st"
  "styles (set_cell st r c e) = styles st" "cursorState (set_cell st r c e) = cursorState st"
  "selectionState (set_cell st r c e) = selectionState st"
  "titleText (set_cell st r c e) = titleText st"
  "dirtyCells (set_cell st r c e) = insert (r, c) (dirtyCells st)"
  by (simp_all add: set_cell_def)

lemma set_cell_grid_row [simp]: "grid (set_cell st r c e) r \<noteq> None"
  by (simp add: set_cell_def)

lemma set_cell_code:
  "grid st r = Some line \<Longrightarrow>
   st\<lparr>grid := (grid st)(r \<mapsto> line(c \<mapsto> e)), dirtyCells := insert (r, c) (dirtyCells st)\<rparr> =
   set_cell st r c e"
  by (simp add: set_cell_def)

lemma set_cell_code2:
  "grid st r = Some line \<Longrightarrow>
   st\<lparr>grid := (grid st)(r \<mapsto> line(c \<mapsto> e, c + 1 \<mapsto> e')),
      dirtyCells := insert (r, c + 1) (insert (r, c) (dirtyCells st))\<rparr> =
   set_cell (set_cell st r c e) r (c + 1) e'"
  by (simp add: set_cell_def)

lemma cell_at_set_cell:
  "cell_at (set_cell st r c e) r' c' =
     (if r' = r \<and> c' = c then Some e else cell_at st r' c')"
  by (simp add: cell_at_def set_cell_def split: option.splits)

lemma write_flat_fields [simp]:
  "cols (write_flat es r c st) = cols st" "rows (write_flat es r c st) = rows st"
  "styles (write_flat es r c st) = styles st"
  "cursorState (write_flat es r c st) = cursorState st"
  "selectionState (write_flat es r c st) = selectionState st"
  "titleText (write_flat es r c st) = titleText st"
  by (induction es arbitrary: c st; simp)+

lemma write_flat_grid_row: "grid st r \<noteq> None \<Longrightarrow> grid (write_flat es r c st) r \<noteq> None"
proof (induction es arbitrary: c st)
  case Nil
  then show ?case by simp
next
  case (Cons e es)
  have "grid (set_cell st r c e) r \<noteq> None" by (rule set_cell_grid_row)
  from Cons.IH [OF this] Cons.prems show ?case
    by (cases "cols st \<le> c") (simp_all del: not_None_eq)
qed

lemma write_flat_ge: "cols st \<le> c \<Longrightarrow> write_flat es r c st = st"
  by (cases es) simp_all

lemma write_flat_append:
  "write_flat (xs @ ys) r c st = write_flat ys r (c + int (length xs)) (write_flat xs r c st)"
proof (induction xs arbitrary: c st)
  case Nil
  then show ?case by simp
next
  case (Cons x xs)
  show ?case
  proof (cases "cols st \<le> c")
    case True
    then show ?thesis by (simp add: write_flat_ge)
  next
    case False
    then show ?thesis using Cons.IH [of "c + 1" "set_cell st r c x"]
      by (simp add: add.assoc)
  qed
qed

lemma write_repeat_flat:
  assumes "grid st r \<noteq> None" and "c \<le> cols st"
  shows "write_repeat n g styleId w r c st =
     Inr (min (c + int (length (concat (replicate n (unit_entries g styleId w))))) (cols st),
          write_flat (concat (replicate n (unit_entries g styleId w))) r c st)"
  using assms
proof (induction n arbitrary: c st)
  case 0
  then show ?case by simp
next
  case (Suc n)
  let ?E = "concat (replicate n (unit_entries g styleId w))"
  let ?e = "\<lparr>g_grapheme = g, g_style_id = styleId\<rparr>"
  let ?b = "\<lparr>g_grapheme = '' '', g_style_id = styleId\<rparr>"
  from Suc.prems obtain line where line: "grid st r = Some line" by auto
  show ?case
  proof (cases "c = cols st")
    case True
    then show ?thesis by (simp add: write_flat_ge)
  next
    case False
    with Suc.prems have lt: "c < cols st" by simp
    show ?thesis
    proof (cases "w = 2 \<and> c + 1 < cols st")
      case True
      let ?st' = "set_cell (set_cell st r c ?e) r (c + 1) ?b"
      have ih: "write_repeat n g styleId w r (c + 2) ?st' =
          Inr (min (c + 2 + int (length ?E)) (cols ?st'), write_flat ?E r (c + 2) ?st')"
        using True by (intro Suc.IH) simp_all
      have step: "write_repeat (Suc n) g styleId w r c st =
          write_repeat n g styleId w r (c + 2) ?st'"
        using lt True line by (simp add: set_cell_code2 [OF line])
      show ?thesis
        unfolding step ih using True lt
        by (simp add: unit_entries_def add.assoc)
    next
      case False
      let ?st' = "set_cell st r c ?e"
      have ih: "write_repeat n g styleId w r (c + 1) ?st' =
          Inr (min (c + 1 + int (length ?E)) (cols ?st'), write_flat ?E r (c + 1) ?st')"
        using lt by (intro Suc.IH) simp_all
      from False have cond: "(w = 2 \<and> c + 1 < cols st) = False" by simp
      have step: "write_repeat (Suc n) g styleId w r c st =
          write_repeat n g styleId w r (c + 1) ?st'"
        using lt line by (simp add: cond set_cell_code [OF line])
      show ?thesis
      proof (cases "w = 2")
        case True
        with False have last: "cols st \<le> c + 1" by simp
        have "write_flat ?E r (c + 1) ?st' = ?st'"
          using last by (simp add: write_flat_ge)
        moreover have "write_flat (?e # ?b # ?E) r c st = ?st'"
          using lt last by (simp add: write_flat_ge)
        ultimately show ?thesis
          unfolding step ih using True lt last
          by (simp add: unit_entries_def)
      next
        case False
        then show ?thesis
          unfolding step ih using lt
          by (simp add: unit_entries_def add.assoc)
      qed
    qed
  qed
qed

lemma cell_entries_unit:
  "cell_entries cell styleId =
     concat (replicate (nat (case repeat cell of None \<Rightarrow> 1 | Some n \<Rightarrow> n))
       (unit_entries (grapheme cell) styleId (case width cell of None \<Rightarrow> 1 | Some n \<Rightarrow> n)))"
  by (simp add: cell_entries_def unit_entries_def split: option.splits)

lemma write_cells_flat:
  assumes "grid st r \<noteq> None"
  shows "write_cells cells r recent c st = Inr (write_flat (expand recent cells) r c st)"
  using assms
proof (induction cells arbitrary: recent c st)
  case Nil
  then show ?case by simp
next
  case (Cons cell cells)
  show ?case
  proof (cases "cols st \<le> c")
    case True
    then show ?thesis by (simp add: write_flat_ge)
  next
    case False
    let ?sid = "case style_id cell of Some s \<Rightarrow> Some s | None \<Rightarrow> recent"
    let ?E = "cell_entries cell ?sid"
    let ?st' = "write_flat ?E r c st"
    let ?c' = "min (c + int (length ?E)) (cols st)"
    have sid: "(case style_id cell of None \<Rightarrow> ?sid | Some s \<Rightarrow> Some s) = ?sid"
      by (simp split: option.splits)
    have rep: "write_repeat (nat (case repeat cell of None \<Rightarrow> 1 | Some n \<Rightarrow> n)) (grapheme cell)
        ?sid (case width cell of None \<Rightarrow> 1 | Some n \<Rightarrow> n) r c st = Inr (?c', ?st')"
      using False Cons.prems
      by (simp add: write_repeat_flat cell_entries_unit)
    have g': "grid ?st' r \<noteq> None" using Cons.prems by (rule write_flat_grid_row)
    have ih: "write_cells cells r ?sid ?c' ?st' = Inr (write_flat (expand ?sid cells) r ?c' ?st')"
      by (rule Cons.IH [OF g'])
    have tail: "write_flat (expand ?sid cells) r ?c' ?st' =
        write_flat (expand ?sid cells) r (c + int (length ?E)) ?st'"
    proof (cases "c + int (length ?E) \<le> cols st")
      case True
      then show ?thesis by (simp add: min_def)
    next
      case False
      then show ?thesis by (simp add: write_flat_ge)
    qed
    have "write_cells (cell # cells) r recent c st = write_cells cells r ?sid ?c' ?st'"
      using False by (simp add: Let_def sid rep del: write_repeat.simps)
    then show ?thesis
      unfolding ih tail by (simp add: Let_def write_flat_append)
  qed
qed

lemma cell_at_write_flat:
  "cell_at (write_flat es r c st) r' c' =
     (if r' = r \<and> c \<le> c' \<and> c' < c + int (length es) \<and> c' < cols st
      then Some (es ! nat (c' - c)) else cell_at st r' c')"
proof (induction es arbitrary: c st)
  case Nil
  then show ?case by auto
next
  case (Cons e es)
  show ?case
  proof (cases "cols st \<le> c")
    case True
    then show ?thesis by auto
  next
    case False
    have nth: "c < c' \<Longrightarrow> (e # es) ! nat (c' - c) = es ! nat (c' - (c + 1))"
    proof -
      assume "c < c'"
      then have "nat (c' - c) = Suc (nat (c' - (c + 1)))" by simp
      then show ?thesis by simp
    qed
    show ?thesis
      using False Cons.IH [of "c + 1" "set_cell st r c e"] nth
      by (auto simp: cell_at_set_cell)
  qed
qed

lemma dirtyCells_write_flat:
  "dirtyCells (write_flat es r c st) =
     dirtyCells st \<union> {(r, c') | c'. c \<le> c' \<and> c' < c + int (length es) \<and> c' < cols st}"
proof (induction es arbitrary: c st)
  case Nil
  then show ?case by auto
next
  case (Cons e es)
  show ?case
  proof (cases "cols st \<le> c")
    case True
    then show ?thesis by auto
  next
    case False
    have "{(r, c') | c'. c \<le> c' \<and> c' < c + int (length (e # es)) \<and> c' < cols st} =
        insert (r, c) {(r, c') | c'. c + 1 \<le> c' \<and> c' < c + 1 + int (length es) \<and> c' < cols st}"
      using False by auto
    then show ?thesis
      using False Cons.IH [of "c + 1" "set_cell st r c e"] by simp
  qed
qed

lemma Renderer_write_flat:
  assumes "0 \<le> r" "r < rows st" "grid st r \<noteq> None"
  shows "Renderer_write st r c cells = Inr (write_flat (expand None cells) r c st)"
  using assms by (simp add: Renderer_write_def write_cells_flat)

lemma Renderer_write_general:
  assumes "0 \<le> r" and "r < rows st" and "grid st r \<noteq> None"
  shows "\<exists>st'. Renderer_write st r c cells = Inr st' \<and>
      (\<forall>r' c'. cell_at st' r' c' =
         (if (r', c') \<in> written r c (expand None cells) (cols st)
          then Some (expand None cells ! nat (c' - c)) else cell_at st r' c')) \<and>
      dirtyCells st' = dirtyCells st \<union> written r c (expand None cells) (cols st) \<and>
      rows st' = rows st \<and> cols st' = cols st \<and> styles st' = styles st \<and>
      cursorState st' = cursorState st"
  unfolding Renderer_write_flat [OF assms]
  by (simp add: cell_at_write_flat dirtyCells_write_flat written_def)

lemma Renderer_write_example:
  assumes "0 \<le> r" and "r < rows st" and "grid st r \<noteq> None"
  shows "cols st = 10 \<and> c + 2 < 10 \<longrightarrow>
      (\<exists>st'. Renderer_write st r c [cell_A, cell_B2] = Inr st' \<and>
         cell_at st' r c = Some \<lparr>g_grapheme = ''A'', g_style_id = None\<rparr> \<and>
         cell_at st' r (c + 1) = Some \<lparr>g_grapheme = ''B'', g_style_id = None\<rparr> \<and>
         cell_at st' r (c + 2) = Some \<lparr>g_grapheme = '' '', g_style_id = None\<rparr>)"
proof -
  have ex: "expand None [cell_A, cell_B2] =
      [\<lparr>g_grapheme = ''A'', g_style_id = None\<rparr>, \<lparr>g_grapheme = ''B'', g_style_id = None\<rparr>,
       \<lparr>g_grapheme = '' '', g_style_id = None\<rparr>]"
    by (simp add: cell_A_def cell_B2_def cell_entries_def)
  show ?thesis
    unfolding Renderer_write_flat [OF assms] ex by (simp add: cell_at_set_cell)
qed

lemma Renderer_write_last_column:
  assumes "0 \<le> r" and "r < rows st" and "grid st r \<noteq> None"
  shows "cols st = 10 \<longrightarrow>
      (\<exists>st'. Renderer_write st r 9 [cell_B2] = Inr st' \<and>
         cell_at st' r 9 = Some \<lparr>g_grapheme = ''B'', g_style_id = None\<rparr> \<and>
         (\<forall>r' c'. (r', c') \<noteq> (r, 9) \<longrightarrow> cell_at st' r' c' = cell_at st r' c') \<and>
         dirtyCells st' = insert (r, 9) (dirtyCells st))"
proof -
  have ex2: "expand None [cell_B2] =
      [\<lparr>g_grapheme = ''B'', g_style_id = None\<rparr>, \<lparr>g_grapheme = '' '', g_style_id = None\<rparr>]"
    by (simp add: cell_B2_def cell_entries_def)
  show ?thesis
    unfolding Renderer_write_flat [OF assms] ex2 by (auto simp: cell_at_set_cell)
qed

lemma new_Renderer_fields:
  "rows (new_Renderer n m) = n" "cols (new_Renderer n m) = m"
  "0 \<le> r \<Longrightarrow> r < n \<Longrightarrow> grid (new_Renderer n m) r \<noteq> None"
  "cell_at (new_Renderer n m) r c =
     (if 0 \<le> r \<and> r < n \<and> 0 \<le> c \<and> c < m then Some blank else None)"
  by (simp_all add: new_Renderer_def markAllDirty_def initGrid_def cell_at_def)

text \<open>
  Claim C5.  A write on a row of the grid stores the cells left to right from the start
  column: a cell of width 2 stores its grapheme and then a blank continuation of the same
  style, a cell without a style id takes the most recent explicit one of the same call,
  and what would fall beyond the last column is dropped, not wrapped (no other row
  changes).  On a grid of ten columns the cells A and B (width 2) written at column \<open>c\<close>
  give A, B and a blank at \<open>c\<close>, \<open>c + 1\<close> and \<open>c + 2\<close>; the cell B written at the last
  column, 9, stores B there and nothing else.
\<close>

theorem Renderer_write_applies_cells:
  assumes "0 \<le> r" and "r < rows st" and "grid st r \<noteq> None"
  shows "(\<exists>st'. Renderer_write st r c cells = Inr st' \<and>
      (\<forall>r' c'. cell_at st' r' c' =
         (if (r', c') \<in> written r c (expand None cells) (cols st)
          then Some (expand None cells ! nat (c' - c)) else cell_at st r' c')) \<and>
      dirtyCells st' = dirtyCells st \<union> written r c (expand None cells) (cols st) \<and>
      rows st' = rows st \<and> cols st' = cols st \<and> styles st' = styles st \<and>
      cursorState st' = cursorState st) \<and>
    (cols st = 10 \<and> c + 2 < 10 \<longrightarrow>
      (\<exists>st'. Renderer_write st r c [cell_A, cell_B2] = Inr st' \<and>
         cell_at st' r c = Some \<lparr>g_grapheme = ''A'', g_style_id = None\<rparr> \<and>
         cell_at st' r (c + 1) = Some \<lparr>g_grapheme = ''B'', g_style_id = None\<rparr> \<and>
         cell_at st' r (c + 2) = Some \<lparr>g_grapheme = '' '', g_style_id = None\<rparr>)) \<and>
    (cols st = 10 \<longrightarrow>
      (\<exists>st'. Renderer_write st r 9 [cell_B2] = Inr st' \<and>
         cell_at st' r 9 = Some \<lparr>g_grapheme = ''B'', g_style_id = None\<rparr> \<and>
         (\<forall>r' c'. (r', c') \<noteq> (r, 9) \<longrightarrow> cell_at st' r' c' = cell_at st r' c') \<and>
         dirtyCells st' = insert (r, 9) (dirtyCells st)))"
  by (intro conjI)
     (rule Renderer_write_general [OF assms] Renderer_write_example [OF assms]
        Renderer_write_last_column [OF assms])+

theorem Renderer_write_applies_cells_witness:
  "(\<exists>st'. Renderer_write (new_Renderer 2 10) 0 3 [cell_A, cell_B2] = Inr st' \<and>
      cell_at st' 0 3 = Some \<lparr>g_grapheme = ''A'', g_style_id = None\<rparr> \<and>
      cell_at st' 0 4 = Some \<lparr>g_grapheme = ''B'', g_style_id = None\<rparr> \<and>
      cell_at st' 0 5 = Some \<lparr>g_grapheme = '' '', g_style_id = None\<rparr>) \<and>
   (\<exists>st'. Renderer_write (new_Renderer 2 10) 0 9 [cell_B2] = Inr st' \<and>
      cell_at st' 0 9 = Some \<lparr>g_grapheme = ''B'', g_style_id = None\<rparr> \<and>
      cell_at st' 1 0 = Some blank)"
proof -
  have h: "(0::int) \<le> 0" "0 < rows (new_Renderer 2 10)" "grid (new_Renderer 2 10) 0 \<noteq> None"
    by (simp_all add: new_Renderer_fields)
  have c10: "cols (new_Renderer 2 10) = 10" by (simp add: new_Renderer_fields)
  have a: "\<exists>st'. Renderer_write (new_Renderer 2 10) 0 3 [cell_A, cell_B2] = Inr st' \<and>
      cell_at st' 0 3 = Some \<lparr>g_grapheme = ''A'', g_style_id = None\<rparr> \<and>
      cell_at st' 0 4 = Some \<lparr>g_grapheme = ''B'', g_style_id = None\<rparr> \<and>
      cell_at st' 0 5 = Some \<lparr>g_grapheme = '' '', g_style_id = None\<rparr>"
    using Renderer_write_applies_cells [OF h, of 3, THEN conjunct2, THEN conjunct1] c10
    by simp
  obtain st' where b: "Renderer_write (new_Renderer 2 10) 0 9 [cell_B2] = Inr st'"
    "cell_at st' 0 9 = Some \<lparr>g_grapheme = ''B'', g_style_id = None\<rparr>"
    "\<forall>r' c'. (r', c') \<noteq> (0, 9) \<longrightarrow> cell_at st' r' c' = cell_at (new_Renderer 2 10) r' c'"
    using Renderer_write_applies_cells [OF h, THEN conjunct2, THEN conjunct2] c10
    by blast
  from b(3) have "cell_at st' 1 0 = cell_at (new_Renderer 2 10) 1 0" by simp
  then have "cell_at st' 1 0 = Some blank" by (simp add: new_Renderer_fields)
  with b(1,2) a show ?thesis by blast
qed

text \<open>
  Claim C10.  A write to a row outside the grid (\<open>row < 0\<close> or \<open>row \<ge> rows\<close>) is a
  no-op: it returns normally and the renderer (grid, dirty set, style table, cursor and
  the rest) is unchanged.
\<close>

theorem Renderer_write_bad_row:
  "r < 0 \<or> rows st \<le> r \<Longrightarrow> Renderer_write st r c cells = Inr st"
  by (simp add: Renderer_write_def)

theorem Renderer_write_bad_row_witness:
  "Renderer_write (new_Renderer 2 10) 2 0 [cell_A] = Inr (new_Renderer 2 10) \<and>
   Renderer_write (new_Renderer 2 10) (- 1) 0 [cell_A] = Inr (new_Renderer 2 10)"
  using Renderer_write_bad_row [of 2 "new_Renderer 2 10" 0 "[cell_A]"]
    Renderer_write_bad_row [of "- 1" "new_Renderer 2 10" 0 "[cell_A]"]
  by (simp add: new_Renderer_fields)

section \<open>Protocol engine (\<open>rpc.ts\<close>)\<close>

text \<open>
  A decoded wire value, as the decoder hands it to the client: \<open>null\<close>, \<open>undefined\<close>, a
  boolean, a number (the integral ones), a string, an array or an object.
\<close>

datatype js_value =
    JNull
  | JUndefined
  | JBool bool
  | JNumber int
  | JString string
  | JArray "js_value list"
  | JObject "(string \<times> js_value) list"

text \<open>
  The reasons a request's promise is rejected with: the server's error value, the timeout
  (method, id and delay, as in the message of the source) and a failed socket write.
\<close>

datatype rpc_error =
    RpcError js_value
  | TimeoutError string nat nat
  | SendFailed

datatype settlement = Resolved js_value | Rejected rpc_error

type_synonym byte = "8 word"

text \<open>
  The client's own fields are the id counter, the table of pending requests, the
  notification handlers and the receive buffer.  A pending entry holds the promise's
  \<open>resolve\<close> and \<open>reject\<close> and the handle of its timer; the promise of a request is
  identified with the request's id, and a timer handle is the id of the request that armed
  it.  The rest of the record is the environment the client acts on: the clock in
  milliseconds, the armed timers (handle, due time, method) in the order they were armed,
  the settlement of every promise, the requests written to the socket and the calls made to
  notification handlers.
\<close>

record RpcClient =
  msgidCounter :: nat
  pendingRequests :: "nat \<rightharpoonup> nat"
  notificationHandlers :: "string \<rightharpoonup> nat"
  buffer :: "byte list"
  now :: nat
  timers :: "(nat \<times> nat \<times> string) list"
  settled :: "nat \<rightharpoonup> settlement"
  sent :: "(nat \<times> string \<times> js_value) list"
  notified :: "(nat \<times> js_value) list"

definition REQUEST_TIMEOUT_MS :: nat where
  "REQUEST_TIMEOUT_MS = 30000"

definition new_RpcClient :: RpcClient where
  "new_RpcClient =
     \<lparr>msgidCounter = 1, pendingRequests = Map.empty, notificationHandlers = Map.empty,
      buffer = [], now = 0, timers = [], settled = Map.empty, sent = [], notified = []\<rparr>"

text \<open>A promise settles once: a later \<open>resolve\<close> or \<open>reject\<close> has no effect.\<close>

definition settle :: "RpcClient \<Rightarrow> nat \<Rightarrow> settlement \<Rightarrow> RpcClient" where
  "settle st msgid outcome =
     (case settled st msgid of
        None \<Rightarrow> st\<lparr>settled := (settled st)(msgid \<mapsto> outcome)\<rparr>
      | Some _ \<Rightarrow> st)"

definition setTimeout :: "RpcClient \<Rightarrow> nat \<Rightarrow> string \<Rightarrow> nat \<Rightarrow> RpcClient" where
  "setTimeout st handle method delay =
     st\<lparr>timers := timers st @ [(handle, now st + delay, method)]\<rparr>"

definition clearTimeout :: "RpcClient \<Rightarrow> nat \<Rightarrow> RpcClient" where
  "clearTimeout st handle = st\<lparr>timers := filter (\<lambda>t. fst t \<noteq> handle) (timers st)\<rparr>"

text \<open>
  The callback a request arms: it deletes the pending entry and rejects with the timeout
  error.  \<open>elapse\<close> lets time pass: the timers that are due fire, in the order they were
  armed.
\<close>

definition timeout_callback :: "RpcClient \<Rightarrow> nat \<times> nat \<times> string \<Rightarrow> RpcClient" where
  "timeout_callback st t =
     (case t of (msgid, due, method) \<Rightarrow>
        settle (st\<lparr>pendingRequests := (pendingRequests st)(msgid := None)\<rparr>) msgid
          (Rejected (TimeoutError method msgid REQUEST_TIMEOUT_MS)))"

definition elapse :: "RpcClient \<Rightarrow> nat \<Rightarrow> RpcClient" where
  "elapse st dt =
     (let t = now st + dt;
          due = filter (\<lambda>x. fst (snd x) \<le> t) (timers st);
          later = filter (\<lambda>x. \<not> fst (snd x) \<le> t) (timers st)
      in foldl timeout_callback (st\<lparr>now := t, timers := later\<rparr>) due)"

text \<open>
  \<open>request\<close> takes the next id, arms the timer, registers the pending entry and writes the
  encoded request to the socket; \<open>write_ok\<close> says whether encoding and writing succeed.
  When they fail the entry is deleted, the timer cleared and the promise rejected.  The
  function returns the id, which stands for the returned promise.
\<close>

definition request :: "RpcClient \<Rightarrow> string \<Rightarrow> js_value \<Rightarrow> bool \<Rightarrow> nat \<times> RpcClient" where
  "request st method params write_ok =
     (let msgid = msgidCounter st;
          st1 = st\<lparr>msgidCounter := msgid + 1\<rparr>;
          st2 = setTimeout st1 msgid method REQUEST_TIMEOUT_MS;
          st3 = st2\<lparr>pendingRequests := (pendingRequests st2)(msgid \<mapsto> msgid)\<rparr>
      in if write_ok then (msgid, st3\<lparr>sent := sent st3 @ [(msgid, method, params)]\<rparr>)
         else (msgid,
               settle (clearTimeout (st3\<lparr>pendingRequests := (pendingRequests st3)(msgid := None)\<rparr>)
                         msgid) msgid (Rejected SendFailed)))"

definition on :: "RpcClient \<Rightarrow> string \<Rightarrow> nat \<Rightarrow> RpcClient" where
  "on st method handler =
     st\<lparr>notificationHandlers := (notificationHandlers st)(method \<mapsto> handler)\<rparr>"

text \<open>
  \<open>this.pendingRequests.get(msgid)\<close> for a number off the wire: ids are the naturals the
  counter has issued, so a negative number finds nothing.
\<close>

definition lookup_pending :: "RpcClient \<Rightarrow> int \<Rightarrow> nat option" where
  "lookup_pending st msgid = (if msgid < 0 then None else pendingRequests st (nat msgid))"

definition handleResponse :: "RpcClient \<Rightarrow> js_value list \<Rightarrow> RpcClient" where
  "handleResponse st rest =
     (case rest of
        [JNumber msgid, error, result] \<Rightarrow>
          (case lookup_pending st msgid of
             None \<Rightarrow> st
           | Some timeout \<Rightarrow>
               (let st1 = st\<lparr>pendingRequests := (pendingRequests st)(nat msgid := None)\<rparr>;
                    st2 = clearTimeout st1 timeout
                in if error \<noteq> JNull \<and> error \<noteq> JUndefined
                   then settle st2 (nat msgid) (Rejected (RpcError error))
                   else settle st2 (nat msgid) (Resolved result)))
      | _ \<Rightarrow> st)"

definition handleNotification :: "RpcClient \<Rightarrow> js_value list \<Rightarrow> RpcClient" where
  "handleNotification st rest =
     (case rest of
        [JString method, params] \<Rightarrow>
          (case notificationHandlers st method of
             None \<Rightarrow> st
           | Some handler \<Rightarrow> st\<lparr>notified := notified st @ [(handler, params)]\<rparr>)
      | _ \<Rightarrow> st)"

text \<open>
  \<open>handleMessage\<close> ignores everything that is not an array (a value that is falsy or not
  an object returns at once, an object that is not an array is logged and dropped), takes
  the first element as the type and dispatches on it.  A handler that throws is caught, so
  a notification only records the call.
\<close>

definition handleMessage :: "RpcClient \<Rightarrow> js_value \<Rightarrow> RpcClient" where
  "handleMessage st message =
     (case message of
        JArray (type # rest) \<Rightarrow>
          (if type = JNumber 1 then handleResponse st rest
           else if type = JNumber 2 then handleNotification st rest
           else st)
      | _ \<Rightarrow> st)"

text \<open>The wire shape of a response: \<open>[1, msgid, error, result]\<close>.\<close>

definition response :: "nat \<Rightarrow> js_value \<Rightarrow> js_value \<Rightarrow> js_value" where
  "response msgid error result = JArray [JNumber 1, JNumber (int msgid), error, result]"

text \<open>
  What can happen to a client, one event at a time (requests, received messages, time
  passing, handler registration), and the run of a list of events.
\<close>

datatype rpc_event =
    Request string js_value bool
  | Receive js_value
  | Elapse nat
  | On string nat

fun step :: "RpcClient \<Rightarrow> rpc_event \<Rightarrow> RpcClient" where
  "step st (Request method params write_ok) = snd (request st method params write_ok)"
| "step st (Receive message) = handleMessage st message"
| "step st (Elapse dt) = elapse st dt"
| "step st (On method handler) = on st method handler"


fun is_response_for :: "nat \<Rightarrow> rpc_event \<Rightarrow> bool" where
  "is_response_for msgid (Receive (JArray [JNumber t, JNumber n, error, result])) =
     (t = 1 \<and> n = int msgid)"
| "is_response_for msgid _ = False"





text \<open>The state after one request on a fresh client.\<close>

definition st_req :: RpcClient where
  "st_req = snd (request new_RpcClient ''list_sessions'' JNull True)"


subsection \<open>Receiving bytes\<close>

text \<open>
  Decoding one value is the work of the MessagePack package, which is not part of the
  repository.  It is a parameter of the model: a decoder takes the bytes from the current
  position on and returns the value and the number of bytes it occupies, or \<open>None\<close> where
  the package throws (incomplete or corrupt input).
\<close>

type_synonym decoder = "byte list \<Rightarrow> (js_value \<times> nat) option"

text \<open>
  Modelled from the spec: \<open>unpackMultiple\<close> of the MessagePack package, which the source
  calls with a callback receiving each value with its start and end position.  It decodes
  values one after the other while the position is before the end of the buffer and stops
  at the first value that cannot be decoded; the first value is attempted even on an empty
  buffer.  A decoder that reports no progress or an end beyond the buffer counts as a
  throw.  The result is the list of callback calls (value, start, end).
\<close>

function unpackMultiple :: "decoder \<Rightarrow> byte list \<Rightarrow> nat \<Rightarrow> (js_value \<times> nat \<times> nat) list" where
  "unpackMultiple dec source pos =
     (case dec (drop pos source) of
        None \<Rightarrow> []
      | Some (v, n) \<Rightarrow>
          if n = 0 \<or> length source < pos + n then []
          else (v, pos, pos + n) #
               (if pos + n < length source then unpackMultiple dec source (pos + n) else []))"
  by pat_completeness auto
termination
  by (relation "measure (\<lambda>(dec, source, pos). length source - pos)") auto

declare unpackMultiple.simps [simp del]

text \<open>
  \<open>processData\<close> appends the chunk to the buffer, collects the decoded messages and the
  end of the last one (the exception of a partial message is caught and dropped), cuts
  the buffer at that end and then handles the messages in order.
\<close>

definition processData :: "decoder \<Rightarrow> RpcClient \<Rightarrow> byte list \<Rightarrow> RpcClient" where
  "processData dec st chunk =
     (let buf = buffer st @ chunk;
          calls = unpackMultiple dec buf 0;
          messages = map fst calls;
          lastEnd = (if calls = [] then 0 else snd (snd (last calls)));
          st1 = st\<lparr>buffer := (if lastEnd > 0 then drop lastEnd buf else buf)\<rparr>
      in foldl handleMessage st1 messages)"

text \<open>The messages one call of \<open>processData\<close> decodes.\<close>

definition decoded :: "decoder \<Rightarrow> RpcClient \<Rightarrow> byte list \<Rightarrow> js_value list" where
  "decoded dec st chunk = map fst (unpackMultiple dec (buffer st @ chunk) 0)"

text \<open>
  An encoding is self-delimiting when a value that decodes from a buffer decodes to the
  same value and length from every extension of the buffer: the bytes after a complete
  value do not matter.
\<close>

definition self_delimiting :: "decoder \<Rightarrow> bool" where
  "self_delimiting dec =
     (\<forall>bs v n ext. dec bs = Some (v, n) \<and> 0 < n \<and> n \<le> length bs \<longrightarrow>
        dec (bs @ ext) = Some (v, n))"

text \<open>
  The same loop on the remaining bytes instead of positions: the messages and the bytes
  left over.  Lemma \<open>unpackMultiple_decode_all\<close> relates the two.
\<close>

function decode_all :: "decoder \<Rightarrow> byte list \<Rightarrow> js_value list \<times> byte list" where
  "decode_all dec buf =
     (case dec buf of
        None \<Rightarrow> ([], buf)
      | Some (v, n) \<Rightarrow>
          if n = 0 \<or> length buf < n then ([], buf)
          else if n < length buf
               then (case decode_all dec (drop n buf) of (ms, rest) \<Rightarrow> (v # ms, rest))
               else ([v], []))"
  by pat_completeness auto
termination
  by (relation "measure (\<lambda>(dec, buf). length buf)") auto

declare decode_all.simps [simp del]

definition end_of :: "(js_value \<times> nat \<times> nat) list \<Rightarrow> nat \<Rightarrow> nat" where
  "end_of calls pos = (if calls = [] then pos else snd (snd (last calls)))"

text \<open>
  Modelled from the spec: the wire encoding is MessagePack-compatible, and its decoder is
  not part of the repository.  This is a decoder for a part of MessagePack, to run the
  client on real bytes: positive and negative fixint, nil, the booleans, uint 8, fixstr
  and fixarray.  The first argument bounds the nesting depth; the length of the input is
  always enough.
\<close>

fun unpack_value :: "nat \<Rightarrow> byte list \<Rightarrow> (js_value \<times> nat) option"
  and unpack_items :: "nat \<Rightarrow> nat \<Rightarrow> byte list \<Rightarrow> (js_value list \<times> nat) option" where
  "unpack_value 0 bs = None"
| "unpack_value (Suc f) [] = None"
| "unpack_value (Suc f) (b # bs) =
     (if b \<le> 0x7f then Some (JNumber (uint b), 1)
      else if 0x90 \<le> b \<and> b \<le> 0x9f
      then (case unpack_items f (unat (b - 0x90)) bs of
              None \<Rightarrow> None
            | Some (vs, n) \<Rightarrow> Some (JArray vs, Suc n))
      else if 0xa0 \<le> b \<and> b \<le> 0xbf
      then (let len = unat (b - 0xa0)
            in if length bs < len then None
               else Some (JString (map (\<lambda>x. char_of (unat x)) (take len bs)), Suc len))
      else if b = 0xc0 then Some (JNull, 1)
      else if b = 0xc2 then Some (JBool False, 1)
      else if b = 0xc3 then Some (JBool True, 1)
      else if b = 0xcc then (case bs of [] \<Rightarrow> None | x # _ \<Rightarrow> Some (JNumber (uint x), 2))
      else if 0xe0 \<le> b then Some (JNumber (sint b), 1)
      else None)"
| "unpack_items f 0 bs = Some ([], 0)"
| "unpack_items f (Suc k) bs =
     (case unpack_value f bs of
        None \<Rightarrow> None
      | Some (v, n) \<Rightarrow>
          (case unpack_items f k (drop n bs) of
             None \<Rightarrow> None
           | Some (vs, m) \<Rightarrow> Some (v # vs, n + m)))"

definition msgpack_unpack :: decoder where
  "msgpack_unpack bs = unpack_value (length bs) bs"

text \<open>A response \<open>[1, 1, nil, 7]\<close> and a notification \<open>[2, "hi", [42]]\<close> as bytes.\<close>

definition sample_response :: "byte list" where
  "sample_response = [0x94, 0x01, 0x01, 0xc0, 0x07]"

definition sample_notification :: "byte list" where
  "sample_notification = [0x93, 0x02, 0xa2, 0x68, 0x69, 0x91, 0x2a]"

subsection \<open>Properties of request and response correlation\<close>

lemma settle_fields [simp]:
  "msgidCounter (settle st i x) = msgidCounter st"
  "pendingRequests (settle st i x) = pendingRequests st"
  "timers (settle st i x) = timers st"
  "now (settle st i x) = now st"
  "buffer (settle st i x) = buffer st"
  by (simp_all add: settle_def split: option.splits)


lemma clearTimeout_fields [simp]:
  "msgidCounter (clearTimeout st h) = msgidCounter st"
  "pendingRequests (clearTimeout st h) = pendingRequests st"
  "settled (clearTimeout st h) = settled st"
  "now (clearTimeout st h) = now st"
  "buffer (clearTimeout st h) = buffer st"
  "timers (clearTimeout st h) = filter (\<lambda>t. fst t \<noteq> h) (timers st)"
  by (simp_all add: clearTimeout_def)



lemma foldl_timeout_callback_fields [simp]:
  "msgidCounter (foldl timeout_callback st due) = msgidCounter st"
  "timers (foldl timeout_callback st due) = timers st"
  "now (foldl timeout_callback st due) = now st"
  "buffer (foldl timeout_callback st due) = buffer st"
  by (induction due arbitrary: st; simp add: timeout_callback_def split: prod.splits)+














lemma on_fields [simp]:
  "pendingRequests (on st m h) = pendingRequests st" "timers (on st m h) = timers st"
  "settled (on st m h) = settled st" "now (on st m h) = now st"
  by (simp_all add: on_def)







lemma is_response_for_response [simp]: "is_response_for i (Receive (response j e r)) = (j = i)"
  by (auto simp: response_def)


















subsection \<open>Properties of the incremental decoder\<close>

lemma unpackMultiple_decode_all:
  "pos \<le> length source \<Longrightarrow>
   decode_all dec (drop pos source) =
     (map fst (unpackMultiple dec source pos),
      drop (end_of (unpackMultiple dec source pos) pos) source)"
proof (induction dec source pos rule: unpackMultiple.induct)
  case (1 dec source pos)
  show ?case
  proof (cases "dec (drop pos source)")
    case None
    then show ?thesis
      by (simp add: unpackMultiple.simps [of dec source pos]
          decode_all.simps [of dec "drop pos source"] end_of_def)
  next
    case (Some vn)
    obtain v n where vn: "vn = (v, n)" by (cases vn)
    show ?thesis
    proof (cases "n = 0 \<or> length source < pos + n")
      case True
      then have "n = 0 \<or> length (drop pos source) < n" using "1.prems" by auto
      with True Some vn show ?thesis
        by (simp add: unpackMultiple.simps [of dec source pos]
            decode_all.simps [of dec "drop pos source"] end_of_def)
    next
      case False
      then have g: "\<not> (n = 0 \<or> length (drop pos source) < n)" using "1.prems" by auto
      show ?thesis
      proof (cases "pos + n < length source")
        case True
        then have lt: "n < length (drop pos source)" by simp
        have ih: "decode_all dec (drop (pos + n) source) =
            (map fst (unpackMultiple dec source (pos + n)),
             drop (end_of (unpackMultiple dec source (pos + n)) (pos + n)) source)"
          using "1.IH" [OF Some vn [symmetric] False True] True by simp
        have u: "unpackMultiple dec source pos =
            (v, pos, pos + n) # unpackMultiple dec source (pos + n)"
          using Some vn False True by (simp add: unpackMultiple.simps [of dec source pos])
        have e: "end_of ((v, pos, pos + n) # unpackMultiple dec source (pos + n)) pos =
            end_of (unpackMultiple dec source (pos + n)) (pos + n)"
          by (simp add: end_of_def)
        have d: "drop n (drop pos source) = drop (pos + n) source" by (simp add: add.commute)
        have da: "decode_all dec (drop pos source) =
            (case decode_all dec (drop n (drop pos source)) of (ms, rest) \<Rightarrow> (v # ms, rest))"
          using Some vn g lt by (simp add: decode_all.simps [of dec "drop pos source"])
        show ?thesis
          unfolding u e da d ih by simp
      next
        case False
        with \<open>\<not> (n = 0 \<or> length source < pos + n)\<close> have eq: "pos + n = length source" by simp
        then have nlt: "\<not> n < length (drop pos source)" by simp
        have u: "unpackMultiple dec source pos = [(v, pos, pos + n)]"
          using Some vn \<open>\<not> (n = 0 \<or> length source < pos + n)\<close> False
          by (simp add: unpackMultiple.simps [of dec source pos])
        show ?thesis
          unfolding u using Some vn g nlt eq
          by (simp add: decode_all.simps [of dec "drop pos source"] end_of_def)
      qed
    qed
  qed
qed

lemma decode_all_Nil: "decode_all dec [] = ([], [])"
  by (simp add: decode_all.simps [of dec "[]"] split: option.splits)

lemma decode_all_chunks:
  assumes sd: "self_delimiting dec"
  shows "decode_all dec (a @ b) =
     (case decode_all dec a of (m1, r1) \<Rightarrow>
        (case decode_all dec (r1 @ b) of (m2, r2) \<Rightarrow> (m1 @ m2, r2)))"
proof (induction a rule: length_induct)
  case (1 a)
  show ?case
  proof (cases "\<exists>v n. dec a = Some (v, n) \<and> 0 < n \<and> n \<le> length a")
    case False
    then have "decode_all dec a = ([], a)"
      by (auto simp: decode_all.simps [of dec a] split: option.splits)
    then show ?thesis by (simp split: prod.splits)
  next
    case True
    then obtain v n where d: "dec a = Some (v, n)" and n: "0 < n" "n \<le> length a" by blast
    have dab: "dec (a @ b) = Some (v, n)"
      using sd d n unfolding self_delimiting_def by blast
    show ?thesis
    proof (cases "n < length a")
      case True
      obtain m1 r1 where t: "decode_all dec (drop n a) = (m1, r1)"
        by (cases "decode_all dec (drop n a)")
      obtain m2 r2 where t2: "decode_all dec (r1 @ b) = (m2, r2)"
        by (cases "decode_all dec (r1 @ b)")
      have la: "decode_all dec a = (v # m1, r1)"
        using d n True t by (simp add: decode_all.simps [of dec a])
      have "length (drop n a) < length a" using n by simp
      then have ih: "decode_all dec (drop n a @ b) = (m1 @ m2, r2)"
        using "1.IH" t t2 by simp
      have "decode_all dec (a @ b) = (v # m1 @ m2, r2)"
        using dab n True ih by (simp add: decode_all.simps [of dec "a @ b"])
      then show ?thesis by (simp add: la t2)
    next
      case False
      with n have eq: "n = length a" by simp
      have la: "decode_all dec a = ([v], [])"
        using d n eq by (simp add: decode_all.simps [of dec a])
      obtain m2 r2 where t2: "decode_all dec b = (m2, r2)" by (cases "decode_all dec b")
      have "decode_all dec (a @ b) = (v # m2, r2)"
      proof (cases "b = []")
        case True
        with t2 have "m2 = []" "r2 = []" by (simp_all add: decode_all_Nil)
        then show ?thesis using True la by simp
      next
        case False
        then show ?thesis
          using dab n eq t2 by (simp add: decode_all.simps [of dec "a @ b"])
      qed
      then show ?thesis by (simp add: la t2)
    qed
  qed
qed

lemma handleMessage_buffer:
  "handleMessage (st\<lparr>buffer := x\<rparr>) m = (handleMessage st m)\<lparr>buffer := x\<rparr>"
  by (auto simp: handleMessage_def handleResponse_def handleNotification_def lookup_pending_def
      Let_def settle_def clearTimeout_def
      split: js_value.splits list.splits option.splits)

lemma foldl_handleMessage_buffer:
  "foldl handleMessage (st\<lparr>buffer := x\<rparr>) ms = (foldl handleMessage st ms)\<lparr>buffer := x\<rparr>"
  by (induction ms arbitrary: st) (simp_all add: handleMessage_buffer)

lemma processData_decode_all:
  "processData dec st chunk =
     (case decode_all dec (buffer st @ chunk) of
        (ms, rest) \<Rightarrow> (foldl handleMessage st ms)\<lparr>buffer := rest\<rparr>)"
proof -
  let ?buf = "buffer st @ chunk"
  let ?calls = "unpackMultiple dec ?buf 0"
  have da: "decode_all dec ?buf = (map fst ?calls, drop (end_of ?calls 0) ?buf)"
    using unpackMultiple_decode_all [of 0 ?buf dec] by simp
  have "(if 0 < end_of ?calls 0 then drop (end_of ?calls 0) ?buf else ?buf) =
      drop (end_of ?calls 0) ?buf" by simp
  then show ?thesis
    unfolding da
    by (simp add: processData_def Let_def end_of_def [symmetric] foldl_handleMessage_buffer)
qed

lemma decoded_decode_all: "decoded dec st chunk = fst (decode_all dec (buffer st @ chunk))"
  using unpackMultiple_decode_all [of 0 "buffer st @ chunk" dec] by (simp add: decoded_def)

lemma buffer_processData:
  "buffer (processData dec st chunk) = snd (decode_all dec (buffer st @ chunk))"
  by (simp add: processData_decode_all split: prod.splits)

lemma processData_chunks:
  assumes sd: "self_delimiting dec"
  shows "processData dec (processData dec st a) b = processData dec st (a @ b)"
    and "decoded dec st a @ decoded dec (processData dec st a) b = decoded dec st (a @ b)"
proof -
  obtain m1 r1 where t1: "decode_all dec (buffer st @ a) = (m1, r1)"
    by (cases "decode_all dec (buffer st @ a)")
  obtain m2 r2 where t2: "decode_all dec (r1 @ b) = (m2, r2)"
    by (cases "decode_all dec (r1 @ b)")
  have whole: "decode_all dec (buffer st @ a @ b) = (m1 @ m2, r2)"
    using decode_all_chunks [OF sd, of "buffer st @ a" b] t1 t2 by simp
  have p1: "processData dec st a = (foldl handleMessage st m1)\<lparr>buffer := r1\<rparr>"
    by (simp add: processData_decode_all t1)
  show "processData dec (processData dec st a) b = processData dec st (a @ b)"
    by (simp add: processData_decode_all [of dec _ b] p1 t2
        processData_decode_all [of dec st "a @ b"] whole foldl_handleMessage_buffer)
  show "decoded dec st a @ decoded dec (processData dec st a) b = decoded dec st (a @ b)"
    by (simp add: decoded_decode_all p1 t1 t2 whole)
qed

lemma unpack_mono:
  "unpack_value f bs = Some (v, n) \<Longrightarrow>
     0 < n \<and> n \<le> length bs \<and> unpack_value (f + g) (bs @ ext) = Some (v, n)"
  "unpack_items f k bs = Some (vs, m) \<Longrightarrow>
     m \<le> length bs \<and> unpack_items (f + g) k (bs @ ext) = Some (vs, m)"
proof (induction f bs and f k bs arbitrary: v n and vs m rule: unpack_value_unpack_items.induct)
  case (1 bs)
  then show ?case by simp
next
  case (2 f)
  then show ?case by simp
next
  case (3 f b bs)
  show ?case
  proof (cases "\<not> b \<le> 0x7f \<and> 0x90 \<le> b \<and> b \<le> 0x9f")
    case True
    with "3.prems" obtain vs m where
      it: "unpack_items f (unat (b - 0x90)) bs = Some (vs, m)" and v: "v = JArray vs" "n = Suc m"
      by (auto split: option.splits)
    from "3.IH" [OF _ _ it] True
    have "m \<le> length bs \<and> unpack_items (f + g) (unat (b - 0x90)) (bs @ ext) = Some (vs, m)"
      by simp
    with True v show ?thesis by simp
  next
    case False
    with "3.prems" show ?thesis
      by (auto simp: Let_def split: if_splits list.splits)
  qed
next
  case (4 f bs)
  then show ?case by simp
next
  case (5 f k bs)
  from "5.prems" obtain v n vs' m' where
    a: "unpack_value f bs = Some (v, n)" and b: "unpack_items f k (drop n bs) = Some (vs', m')"
    and r: "vs = v # vs'" "m = n + m'"
    by (auto split: option.splits)
  from "5.IH"(1) [OF a]
  have a': "0 < n" "n \<le> length bs" "unpack_value (f + g) (bs @ ext) = Some (v, n)" by simp_all
  from "5.IH"(2) [OF a _ b]
  have b': "m' \<le> length (drop n bs)" "unpack_items (f + g) k (drop n bs @ ext) = Some (vs', m')"
    by simp_all
  have "drop n (bs @ ext) = drop n bs @ ext" using a'(2) by simp
  with a' b' r show ?case by simp
qed

lemma self_delimiting_msgpack_unpack: "self_delimiting msgpack_unpack"
  unfolding self_delimiting_def msgpack_unpack_def
proof (intro allI impI)
  fix bs v n ext
  assume "unpack_value (length bs) bs = Some (v, n) \<and> 0 < n \<and> n \<le> length bs"
  then have "unpack_value (length bs) bs = Some (v, n)" by simp
  from unpack_mono(1) [OF this, of "length ext" ext]
  show "unpack_value (length (bs @ ext)) (bs @ ext) = Some (v, n)" by simp
qed

lemma decode_all_truncated:
  assumes sd: "self_delimiting dec"
    and whole: "dec whole = Some (w, length whole)" and k: "k < length whole"
  shows "decode_all dec (take k whole) = ([], take k whole)"
proof (cases "\<exists>v n. dec (take k whole) = Some (v, n) \<and> 0 < n \<and> n \<le> length (take k whole)")
  case True
  then obtain v n where d: "dec (take k whole) = Some (v, n)" "0 < n" "n \<le> length (take k whole)"
    by blast
  then have "dec (take k whole @ drop k whole) = Some (v, n)"
    using sd unfolding self_delimiting_def by blast
  with whole have "n = length whole" by simp
  with d(3) k show ?thesis by simp
next
  case False
  then show ?thesis
    by (auto simp: decode_all.simps [of dec "take k whole"] split: option.splits)
qed

lemma decode_all_complete:
  assumes sd: "self_delimiting dec"
    and "\<forall>(enc, v) \<in> set msgs. enc \<noteq> [] \<and> dec enc = Some (v, length enc)"
    and "decode_all dec tail = ([], tail)"
  shows "decode_all dec (concat (map fst msgs) @ tail) = (map snd msgs, tail)"
  using assms(2)
proof (induction msgs)
  case Nil
  then show ?case using assms(3) by simp
next
  case (Cons p msgs)
  obtain enc v where p: "p = (enc, v)" by (cases p)
  with Cons.prems have e: "enc \<noteq> []" "dec enc = Some (v, length enc)" by auto
  have one: "decode_all dec enc = ([v], [])"
    using e by (simp add: decode_all.simps [of dec enc])
  have ih: "decode_all dec (concat (map fst msgs) @ tail) = (map snd msgs, tail)"
    using Cons by simp
  show ?case
    using decode_all_chunks [OF sd, of enc "concat (map fst msgs) @ tail"]
    by (simp add: p one ih)
qed

lemma sample_unpack:
  "msgpack_unpack sample_response =
     Some (JArray [JNumber 1, JNumber 1, JNull, JNumber 7], length sample_response)"
  "msgpack_unpack sample_notification =
     Some (JArray [JNumber 2, JString ''hi'', JArray [JNumber 42]], length sample_notification)"
  by code_simp+

text \<open>
  Claim C4.  With a self-delimiting encoding, feeding a byte sequence in two chunks, cut
  at any point, leaves the client in the same state as feeding it whole, and the messages
  decoded by the two calls together are the messages decoded by the one call.  A buffer
  that ends in a truncated message (a proper prefix of a complete one) decodes the
  complete messages before it, handles them, and keeps the truncated bytes for the next
  call; \<open>processData\<close> returns a state in every case, it has no failing branch.
\<close>

theorem processData_chunk_invariance:
  assumes "self_delimiting dec"
  shows "(\<forall>k. processData dec (processData dec st (take k bytes)) (drop k bytes) =
              processData dec st bytes \<and>
            decoded dec st (take k bytes) @
              decoded dec (processData dec st (take k bytes)) (drop k bytes) =
              decoded dec st bytes) \<and>
     ((\<forall>(enc, v) \<in> set msgs. enc \<noteq> [] \<and> dec enc = Some (v, length enc)) \<and>
      dec whole = Some (w, length whole) \<and> k < length whole \<and> buffer st = [] \<longrightarrow>
        decoded dec st (concat (map fst msgs) @ take k whole) = map snd msgs \<and>
        processData dec st (concat (map fst msgs) @ take k whole) =
          (foldl handleMessage st (map snd msgs))\<lparr>buffer := take k whole\<rparr>)"
proof -
  have split: "\<forall>k. processData dec (processData dec st (take k bytes)) (drop k bytes) =
              processData dec st bytes \<and>
            decoded dec st (take k bytes) @
              decoded dec (processData dec st (take k bytes)) (drop k bytes) =
              decoded dec st bytes"
    using processData_chunks [OF assms, of st "take _ bytes" "drop _ bytes"] by simp
  have trunc: "(\<forall>(enc, v) \<in> set msgs. enc \<noteq> [] \<and> dec enc = Some (v, length enc)) \<and>
      dec whole = Some (w, length whole) \<and> k < length whole \<and> buffer st = [] \<longrightarrow>
        decoded dec st (concat (map fst msgs) @ take k whole) = map snd msgs \<and>
        processData dec st (concat (map fst msgs) @ take k whole) =
          (foldl handleMessage st (map snd msgs))\<lparr>buffer := take k whole\<rparr>"
  proof
    assume h: "(\<forall>(enc, v) \<in> set msgs. enc \<noteq> [] \<and> dec enc = Some (v, length enc)) \<and>
      dec whole = Some (w, length whole) \<and> k < length whole \<and> buffer st = []"
    then have t: "decode_all dec (take k whole) = ([], take k whole)"
      using decode_all_truncated [OF assms] by blast
    from h have c: "\<forall>(enc, v) \<in> set msgs. enc \<noteq> [] \<and> dec enc = Some (v, length enc)" by blast
    have "decode_all dec (concat (map fst msgs) @ take k whole) = (map snd msgs, take k whole)"
      by (rule decode_all_complete [OF assms c t])
    with h show "decoded dec st (concat (map fst msgs) @ take k whole) = map snd msgs \<and>
        processData dec st (concat (map fst msgs) @ take k whole) =
          (foldl handleMessage st (map snd msgs))\<lparr>buffer := take k whole\<rparr>"
      by (simp add: decoded_decode_all processData_decode_all)
  qed
  show ?thesis by (intro conjI) (rule split trunc)+
qed

theorem processData_chunk_invariance_witness:
  "processData msgpack_unpack (processData msgpack_unpack st_req [0x94, 0x01]) [0x01, 0xc0, 0x07] =
     processData msgpack_unpack st_req sample_response \<and>
   decoded msgpack_unpack new_RpcClient (sample_response @ take 3 sample_notification) =
     [JArray [JNumber 1, JNumber 1, JNull, JNumber 7]] \<and>
   buffer (processData msgpack_unpack new_RpcClient (sample_response @ take 3 sample_notification)) =
     [0x93, 0x02, 0xa2]"
proof -
  have a: "processData msgpack_unpack (processData msgpack_unpack st_req [0x94, 0x01])
      [0x01, 0xc0, 0x07] = processData msgpack_unpack st_req sample_response"
    using processData_chunk_invariance [OF self_delimiting_msgpack_unpack,
        of st_req sample_response, THEN conjunct1, rule_format, of 2, THEN conjunct1]
    by (simp add: sample_response_def)
  have h: "(\<forall>(enc, v) \<in> set [(sample_response, JArray [JNumber 1, JNumber 1, JNull, JNumber 7])].
        enc \<noteq> [] \<and> msgpack_unpack enc = Some (v, length enc)) \<and>
      msgpack_unpack sample_notification =
        Some (JArray [JNumber 2, JString ''hi'', JArray [JNumber 42]], length sample_notification) \<and>
      3 < length sample_notification \<and> buffer new_RpcClient = []"
    using sample_unpack by (simp add: sample_response_def sample_notification_def new_RpcClient_def)
  from processData_chunk_invariance [OF self_delimiting_msgpack_unpack, THEN conjunct2,
      rule_format, OF h]
  have b: "decoded msgpack_unpack new_RpcClient (sample_response @ take 3 sample_notification) =
        [JArray [JNumber 1, JNumber 1, JNull, JNumber 7]]"
    and c: "processData msgpack_unpack new_RpcClient (sample_response @ take 3 sample_notification) =
        (foldl handleMessage new_RpcClient [JArray [JNumber 1, JNumber 1, JNull, JNumber 7]])
          \<lparr>buffer := take 3 sample_notification\<rparr>"
    by simp_all
  have "buffer (processData msgpack_unpack new_RpcClient
      (sample_response @ take 3 sample_notification)) = [0x93, 0x02, 0xa2]"
    unfolding c by (simp add: sample_notification_def)
  with a b show ?thesis by simp
qed

section \<open>Connection manager (\<open>connection.ts\<close>)\<close>

text \<open>
  The connection manager logs, sleeps, opens sockets and calls the reconnect callback;
  these are the events of the model, in the order they happen.  A log entry has its level
  and the message, with the numbers the message is formatted from.
\<close>

datatype log_msg =
    Connecting
  | Connected
  | FailedToConnect
  | MaxAttemptsReached
  | AttemptingReconnect nat nat nat
  | ReconnectionFailed

datatype conn_event =
    Log string log_msg
  | Sleep nat
  | CreateConnection
  | OnReconnect

text \<open>How the promise of an asynchronous call ends.\<close>

datatype promise_outcome = Fulfilled | Failed | Pending

text \<open>
  What the environment answers to one \<open>connect\<close>: the connection is refused, or it is
  accepted; the flag says whether the reconnect callback, if one is registered, returns
  normally when it is called afterwards.
\<close>

datatype connect_outcome = Refused | Accepted bool

record PriseConnection =
  rpc :: "RpcClient option"
  isConnected :: bool
  reconnectAttempts :: nat
  maxReconnectAttempts :: nat
  reconnectDelayMs :: nat
  onReconnect :: bool

definition new_PriseConnection :: PriseConnection where
  "new_PriseConnection =
     \<lparr>rpc = None, isConnected = False, reconnectAttempts = 0, maxReconnectAttempts = 5,
      reconnectDelayMs = 1000, onReconnect = False\<rparr>"

definition setReconnectCallback :: "PriseConnection \<Rightarrow> PriseConnection" where
  "setReconnectCallback conn = conn\<lparr>onReconnect := True\<rparr>"

text \<open>
  \<open>connect\<close> resolves when the socket connects and rejects on an error before that, unless
  \<open>isConnected\<close> is already set: then the error handler does nothing and the promise
  stays pending.
\<close>

fun connect ::
  "PriseConnection \<Rightarrow> connect_outcome \<Rightarrow> PriseConnection \<times> conn_event list \<times> promise_outcome" where
  "connect conn (Accepted cb) =
     (conn\<lparr>isConnected := True, reconnectAttempts := 0, rpc := Some new_RpcClient\<rparr>,
      [Log ''info'' Connecting, CreateConnection, Log ''info'' Connected], Fulfilled)"
| "connect conn Refused =
     (if \<not> isConnected conn
      then (conn, [Log ''info'' Connecting, CreateConnection, Log ''error'' FailedToConnect],
            Failed)
      else (conn, [Log ''info'' Connecting, CreateConnection], Pending))"

text \<open>
  \<open>attemptReconnect\<close> is an asynchronous function that calls itself from its \<open>catch\<close>
  block without awaiting the call.  The second argument scripts the answers to the
  \<open>connect\<close> calls it makes, one per attempt; the result is \<open>None\<close> when the script ends
  while a \<open>connect\<close> is awaited, or when its promise never settles.  The outcome returned
  is that of the outermost call; the promise of the inner call is dropped, as in the source.
\<close>

fun attemptReconnect ::
  "PriseConnection \<Rightarrow> connect_outcome list \<Rightarrow>
     (PriseConnection \<times> conn_event list \<times> promise_outcome) option" where
  "attemptReconnect conn script =
     (if reconnectAttempts conn \<ge> maxReconnectAttempts conn
      then Some (conn, [Log ''error'' MaxAttemptsReached], Fulfilled)
      else
        (let conn1 = conn\<lparr>reconnectAttempts := reconnectAttempts conn + 1\<rparr>;
             delay = reconnectDelayMs conn1 * reconnectAttempts conn1;
             start = [Log ''info'' (AttemptingReconnect (reconnectAttempts conn1)
                        (maxReconnectAttempts conn1) delay), Sleep delay]
         in case script of
              [] \<Rightarrow> None
            | outcome # rest \<Rightarrow>
                (case connect conn1 outcome of
                   (conn2, evs, Pending) \<Rightarrow> None
                 | (conn2, evs, Fulfilled) \<Rightarrow>
                     (if \<not> onReconnect conn2 then Some (conn2, start @ evs, Fulfilled)
                      else if outcome = Accepted True
                      then Some (conn2, start @ evs @ [OnReconnect], Fulfilled)
                      else (case attemptReconnect conn2 rest of
                              None \<Rightarrow> None
                            | Some (conn3, evs', p) \<Rightarrow>
                                Some (conn3, start @ evs @ [OnReconnect,
                                        Log ''warn'' ReconnectionFailed] @ evs', Fulfilled)))
                 | (conn2, evs, Failed) \<Rightarrow>
                     (case attemptReconnect conn2 rest of
                        None \<Rightarrow> None
                      | Some (conn3, evs', p) \<Rightarrow>
                          Some (conn3, start @ evs @ [Log ''warn'' ReconnectionFailed] @ evs',
                                Fulfilled)))))"

datatype conn_error = NotConnected

definition getRpc :: "PriseConnection \<Rightarrow> conn_error + RpcClient" where
  "getRpc conn = (case rpc conn of None \<Rightarrow> Inl NotConnected | Some c \<Rightarrow> Inr c)"

definition isSocketConnected :: "PriseConnection \<Rightarrow> bool" where
  "isSocketConnected conn = isConnected conn"

text \<open>
  What a caller can observe of a reconnect, besides the log: the promise rejects, or the
  callback it registered is called.
\<close>

definition surfaces_failure ::
  "(PriseConnection \<times> conn_event list \<times> promise_outcome) option \<Rightarrow> bool" where
  "surfaces_failure res =
     (case res of
        None \<Rightarrow> False
      | Some (conn, evs, p) \<Rightarrow> p = Failed \<or> OnReconnect \<in> set evs)"

text \<open>The events of one failed attempt, and of \<open>n\<close> failed attempts after \<open>a\<close> earlier ones.\<close>

definition attempt_events :: "nat \<Rightarrow> nat \<Rightarrow> nat \<Rightarrow> conn_event list" where
  "attempt_events k mx delay =
     [Log ''info'' (AttemptingReconnect k mx (delay * k)), Sleep (delay * k),
      Log ''info'' Connecting, CreateConnection, Log ''error'' FailedToConnect,
      Log ''warn'' ReconnectionFailed]"

fun failed_attempts :: "nat \<Rightarrow> nat \<Rightarrow> nat \<Rightarrow> nat \<Rightarrow> conn_event list" where
  "failed_attempts a 0 mx delay = []"
| "failed_attempts a (Suc n) mx delay =
     attempt_events (a + 1) mx delay @ failed_attempts (a + 1) n mx delay"

text \<open>
  The manager when the socket has just closed: the close handler has cleared
  \<open>isConnected\<close> and \<open>rpc\<close>, the last successful connect has reset the attempt counter.
\<close>

definition disconnected :: "bool \<Rightarrow> PriseConnection" where
  "disconnected cb =
     \<lparr>rpc = None, isConnected = False, reconnectAttempts = 0, maxReconnectAttempts = 5,
      reconnectDelayMs = 1000, onReconnect = cb\<rparr>"

subsection \<open>Properties of the reconnect loop\<close>

declare attemptReconnect.simps [simp del]

lemma attemptReconnect_exhausted:
  "maxReconnectAttempts conn \<le> reconnectAttempts conn \<Longrightarrow>
   attemptReconnect conn script = Some (conn, [Log ''error'' MaxAttemptsReached], Fulfilled)"
  by (simp add: attemptReconnect.simps [of conn script])

lemma attemptReconnect_refused:
  assumes "reconnectAttempts conn < maxReconnectAttempts conn" and "\<not> isConnected conn"
  shows "attemptReconnect conn (Refused # rest) =
     (case attemptReconnect (conn\<lparr>reconnectAttempts := Suc (reconnectAttempts conn)\<rparr>) rest of
        None \<Rightarrow> None
      | Some (conn3, evs, p) \<Rightarrow>
          Some (conn3,
                attempt_events (reconnectAttempts conn + 1) (maxReconnectAttempts conn)
                  (reconnectDelayMs conn) @ evs, Fulfilled))"
  using assms
  by (simp add: attemptReconnect.simps [of conn "Refused # rest"] Let_def attempt_events_def
      split: option.splits)

lemma attemptReconnect_all_refused:
  assumes "\<not> isConnected conn"
    and "reconnectAttempts conn + n = maxReconnectAttempts conn"
  shows "attemptReconnect conn (replicate n Refused @ rest) =
     Some (conn\<lparr>reconnectAttempts := maxReconnectAttempts conn\<rparr>,
           failed_attempts (reconnectAttempts conn) n (maxReconnectAttempts conn)
             (reconnectDelayMs conn) @ [Log ''error'' MaxAttemptsReached],
           Fulfilled)"
  using assms
proof (induction n arbitrary: conn)
  case 0
  then show ?case by (simp add: attemptReconnect_exhausted)
next
  case (Suc n)
  let ?c = "conn\<lparr>reconnectAttempts := Suc (reconnectAttempts conn)\<rparr>"
  have lt: "reconnectAttempts conn < maxReconnectAttempts conn" using Suc.prems by simp
  have ih: "attemptReconnect ?c (replicate n Refused @ rest) =
     Some (?c\<lparr>reconnectAttempts := maxReconnectAttempts ?c\<rparr>,
           failed_attempts (reconnectAttempts ?c) n (maxReconnectAttempts ?c)
             (reconnectDelayMs ?c) @ [Log ''error'' MaxAttemptsReached],
           Fulfilled)"
    using Suc.prems by (intro Suc.IH) simp_all
  show ?case
    using attemptReconnect_refused [OF lt Suc.prems(1), of "replicate n Refused @ rest"]
    by (simp add: ih)
qed

text \<open>
  Claim C2 says that after five failed attempts the manager stops retrying and surfaces a
  terminal failure to the caller.  The first half holds and the second does not: the
  source logs one line and returns.  With the callback registered and five refused
  connections, the promise is fulfilled and the callback is never called.
\<close>

theorem reconnect_exhaustion_not_surfaced:
  "\<not> surfaces_failure (attemptReconnect (disconnected True) (replicate 5 Refused))"
proof -
  have "attemptReconnect (disconnected True) (replicate 5 Refused @ []) =
     Some ((disconnected True)\<lparr>reconnectAttempts := 5\<rparr>,
           failed_attempts 0 5 5 1000 @ [Log ''error'' MaxAttemptsReached], Fulfilled)"
    using attemptReconnect_all_refused [of "disconnected True" 5 "[]"]
    by (simp add: disconnected_def)
  moreover have "OnReconnect \<notin> set (failed_attempts 0 5 5 1000 @ [Log ''error'' MaxAttemptsReached])"
    by code_simp
  ultimately show ?thesis
    by (simp add: surfaces_failure_def)
qed

text \<open>
  Claim C2, amended.  After five failed attempts, attempt \<open>k\<close> delayed by 1000 ms times
  \<open>k\<close> and each calling \<open>connect\<close>, the manager stops: it logs that the maximum is reached
  and its promise is fulfilled, whatever the environment would have answered next.  It
  stays disconnected (\<open>isSocketConnected\<close> is false, \<open>getRpc\<close> throws), and any later call
  of \<open>attemptReconnect\<close> only logs the same line again.
\<close>

theorem reconnect_exhaustion_is_silent:
  "attemptReconnect (disconnected cb) (replicate 5 Refused @ rest) =
     Some ((disconnected cb)\<lparr>reconnectAttempts := 5\<rparr>,
           concat (map (\<lambda>k. [Log ''info'' (AttemptingReconnect k 5 (1000 * k)), Sleep (1000 * k),
                               Log ''info'' Connecting, CreateConnection,
                               Log ''error'' FailedToConnect, Log ''warn'' ReconnectionFailed])
                       [1, 2, 3, 4, 5]) @
           [Log ''error'' MaxAttemptsReached],
           Fulfilled) \<and>
   \<not> isSocketConnected ((disconnected cb)\<lparr>reconnectAttempts := 5\<rparr>) \<and>
   getRpc ((disconnected cb)\<lparr>reconnectAttempts := 5\<rparr>) = Inl NotConnected \<and>
   attemptReconnect ((disconnected cb)\<lparr>reconnectAttempts := 5\<rparr>) rest =
     Some ((disconnected cb)\<lparr>reconnectAttempts := 5\<rparr>, [Log ''error'' MaxAttemptsReached],
           Fulfilled)"
proof -
  have a: "\<not> isConnected (disconnected cb)"
    and b: "reconnectAttempts (disconnected cb) + 5 = maxReconnectAttempts (disconnected cb)"
    by (simp_all add: disconnected_def)
  have f: "failed_attempts 0 5 5 1000 =
      concat (map (\<lambda>k. [Log ''info'' (AttemptingReconnect k 5 (1000 * k)), Sleep (1000 * k),
                          Log ''info'' Connecting, CreateConnection,
                          Log ''error'' FailedToConnect, Log ''warn'' ReconnectionFailed])
                  [1, 2, 3, 4, 5])"
    by code_simp
  have main: "attemptReconnect (disconnected cb) (replicate 5 Refused @ rest) =
     Some ((disconnected cb)\<lparr>reconnectAttempts := 5\<rparr>,
           failed_attempts 0 5 5 1000 @ [Log ''error'' MaxAttemptsReached], Fulfilled)"
    using attemptReconnect_all_refused [OF a b, of rest] by (simp add: disconnected_def)
  have quiet: "attemptReconnect ((disconnected cb)\<lparr>reconnectAttempts := 5\<rparr>) rest =
     Some ((disconnected cb)\<lparr>reconnectAttempts := 5\<rparr>, [Log ''error'' MaxAttemptsReached],
           Fulfilled)"
    by (rule attemptReconnect_exhausted) (simp add: disconnected_def)
  show ?thesis
    unfolding main f quiet
    by (simp add: isSocketConnected_def getRpc_def disconnected_def)
qed

end
